theory Spec2Isabelle
  imports Main "HOL-Library.Sublist"
begin

section \<open>Values carried by the stream\<close>

text \<open>
  The queue carries Python objects: status strings, the agent's message (a dictionary)
  and the sentinel \<open>None\<close>. Dictionaries have string keys and are kept as association
  lists, read with \<open>map_of\<close>.
\<close>

datatype pyval =
    PNone
  | PBool bool
  | PInt int
  | PStr string
  | PList "pyval list"
  | PDict "(string \<times> pyval) list"

section \<open>StreamingQueue\<close>

text \<open>
  \<^verbatim>\<open>
  class StreamingQueue:
      def __init__(self):
          self.finished = False
          self.queue = asyncio.Queue()
      async def put(self, item):   await self.queue.put(item)
      async def finish(self):      self.finished = True; await self.queue.put(None)
      async def stream(self):
          while True:
              item = await self.queue.get()
              if item is None and self.finished:
                  break
              yield item
  \<close>
  Both scripts declare the same class (the GitHub script spells the fields \<open>_finished\<close>
  and \<open>_queue\<close>). The \<open>asyncio.Queue\<close> is unbounded, so \<open>put\<close> never waits; its content
  is the list of items not yet taken, oldest first.
\<close>

record StreamingQueue =
  finished :: bool
  queue :: "pyval list"

definition StreamingQueue_init :: StreamingQueue where
  "StreamingQueue_init = \<lparr>finished = False, queue = []\<rparr>"

definition put :: "pyval \<Rightarrow> StreamingQueue \<Rightarrow> StreamingQueue" where
  "put item q = q\<lparr>queue := queue q @ [item]\<rparr>"

definition finish :: "StreamingQueue \<Rightarrow> StreamingQueue" where
  "finish q = q\<lparr>finished := True, queue := queue q @ [PNone]\<rparr>"

text \<open>
  One turn of the loop of \<open>stream\<close>. \<open>queue.get()\<close> on an empty queue suspends the
  consumer and leaves the queue as it is; otherwise the head is removed, and the flag is
  read in the same turn (there is no suspension point between the two).
\<close>

datatype stream_event = Yield pyval | Break | Suspended

definition stream :: "StreamingQueue \<Rightarrow> stream_event \<times> StreamingQueue" where
  "stream q =
     (case queue q of
        [] \<Rightarrow> (Suspended, q)
      | item # rest \<Rightarrow>
          if item = PNone \<and> finished q then (Break, q\<lparr>queue := rest\<rparr>)
          else (Yield item, q\<lparr>queue := rest\<rparr>))"

section \<open>Producer task and consumer, interleaved\<close>

text \<open>
  The background task acts on the queue through \<open>put\<close> and \<open>finish\<close> only, and never
  reads it. A task is therefore the list of queue operations it performs, in order,
  and the exception (if any) it ends with.
\<close>

datatype op = Put pyval | Finish

fun apply_op :: "op \<Rightarrow> StreamingQueue \<Rightarrow> StreamingQueue" where
  "apply_op (Put item) q = put item q"
| "apply_op Finish q = finish q"

fun item_of :: "op \<Rightarrow> pyval" where
  "item_of (Put item) = item"
| "item_of Finish = PNone"

text \<open>
  \<^verbatim>\<open>
  task = asyncio.create_task(agent_task(user_message))
  async def stream_with_task():
      async for item in queue.stream():
          yield item
      await task
  return stream_with_task()
  \<close>
  The consumer is in the drain loop, then awaits the task, then has returned (with the
  exception the awaited task raised, if any).
\<close>

datatype phase = Draining | AwaitingTask | Returned "string option"

record system =
  sq :: StreamingQueue
  pending :: "op list"
  task_error :: "string option"
  delivered :: "pyval list"
  phase :: phase

definition task_step :: "system \<Rightarrow> system" where
  "task_step s =
     (case pending s of
        [] \<Rightarrow> s
      | x # rest \<Rightarrow> s\<lparr>sq := apply_op x (sq s), pending := rest\<rparr>)"

definition stream_with_task :: "system \<Rightarrow> system" where
  "stream_with_task s =
     (case phase s of
        Draining \<Rightarrow>
          (case stream (sq s) of
             (Suspended, q) \<Rightarrow> s
           | (Yield item, q) \<Rightarrow> s\<lparr>sq := q, delivered := delivered s @ [item]\<rparr>
           | (Break, q) \<Rightarrow> s\<lparr>sq := q, phase := AwaitingTask\<rparr>)
      | AwaitingTask \<Rightarrow>
          (if pending s = [] then s\<lparr>phase := Returned (task_error s)\<rparr> else s)
      | Returned e \<Rightarrow> s)"

text \<open>
  The event loop runs one coroutine at a time; a schedule says whose turn it is. A turn
  of a coroutine that cannot move (the task is complete, the consumer is suspended on
  an empty queue) changes nothing.
\<close>

datatype turn = Task | Consumer

fun step :: "turn \<Rightarrow> system \<Rightarrow> system" where
  "step Task s = task_step s"
| "step Consumer s = stream_with_task s"

definition run :: "turn list \<Rightarrow> system \<Rightarrow> system" where
  "run sched s = fold step sched s"

definition start :: "StreamingQueue \<Rightarrow> op list \<Rightarrow> string option \<Rightarrow> system" where
  "start q ops err =
     \<lparr>sq = q, pending = ops, task_error = err, delivered = [], phase = Draining\<rparr>"

text \<open>
  A schedule that lets a request run to its end from the state \<open>s\<close>: the task performs
  all its operations, then the consumer takes a turn for every item that can be in the
  queue and one more for the await.
\<close>

definition complete_schedule :: "system \<Rightarrow> turn list" where
  "complete_schedule s =
     replicate (length (pending s)) Task
     @ replicate (length (queue (sq s)) + length (pending s) + 1) Consumer"

subsection \<open>Invariants of a run\<close>

text \<open>
  \<open>stream_inv b ops s\<close> relates a state reached from an empty queue whose flag was \<open>b\<close>
  to the task's operations \<open>ops\<close>: the operations split into those whose items were
  delivered (\<open>d0\<close>), the one whose item ended the drain loop (\<open>st\<close>), those whose items
  wait in the queue (\<open>d2\<close>) and those still to be performed.
\<close>

definition stream_inv :: "bool \<Rightarrow> op list \<Rightarrow> system \<Rightarrow> bool" where
  "stream_inv b ops s \<longleftrightarrow>
     (\<exists>d0 st d2.
        ops = d0 @ st @ d2 @ pending s \<and>
        delivered s = map item_of d0 \<and>
        queue (sq s) = map item_of d2 \<and>
        finished (sq s) = (b \<or> Finish \<in> set (d0 @ st @ d2)) \<and>
        Finish \<notin> set d0 \<and>
        (b \<longrightarrow> PNone \<notin> set (delivered s)) \<and>
        (if phase s = Draining then st = []
         else finished (sq s) \<and> (\<exists>x. st = [x] \<and> item_of x = PNone)))"

definition returned_ok :: "system \<Rightarrow> bool" where
  "returned_ok s \<longleftrightarrow> (\<forall>e. phase s = Returned e \<longrightarrow> pending s = [] \<and> e = task_error s)"

text \<open>
  \<open>will_stop s\<close>: the task still has a \<open>finish\<close> to perform, or the flag is set and the
  drain loop has ended or has a \<open>None\<close> ahead of it.
\<close>

definition will_stop :: "system \<Rightarrow> bool" where
  "will_stop s \<longleftrightarrow>
     Finish \<in> set (pending s) \<or>
     (finished (sq s) \<and> (phase s \<noteq> Draining \<or> PNone \<in> set (queue (sq s))))"

section \<open>Text\<close>

text \<open>
  A string is the UTF-8 encoding of a Python \<open>str\<close>, one character per byte, so ASCII
  text is itself. \<open>lower\<close> is \<open>str.lower()\<close> on the letters \<open>A\<close> to \<open>Z\<close> (bit 5 set) and
  leaves every other byte as it is; \<open>str_in\<close> is Python's \<open>needle in haystack\<close> on
  strings; \<open>join\<close> is \<open>sep.join(parts)\<close>; \<open>str_nat\<close> and \<open>str_int\<close> print a number in
  decimal.
\<close>

definition lower_char :: "char \<Rightarrow> char" where
  "lower_char c =
     (if 65 \<le> (of_char c :: nat) \<and> (of_char c :: nat) \<le> 90
      then (case c of Char b0 b1 b2 b3 b4 b5 b6 b7 \<Rightarrow> Char b0 b1 b2 b3 b4 True b6 b7)
      else c)"

definition lower :: "string \<Rightarrow> string" where
  "lower s = map lower_char s"

fun str_in :: "string \<Rightarrow> string \<Rightarrow> bool" where
  "str_in needle [] = (needle = [])"
| "str_in needle (c # cs) = (prefix needle (c # cs) \<or> str_in needle cs)"

fun join :: "string \<Rightarrow> string list \<Rightarrow> string" where
  "join sep [] = []"
| "join sep [x] = x"
| "join sep (x # y # ys) = x @ sep @ join sep (y # ys)"

fun str_nat :: "nat \<Rightarrow> string" where
  "str_nat n =
     (if n < 10 then [''0123456789'' ! n]
      else str_nat (n div 10) @ [''0123456789'' ! (n mod 10)])"

definition str_int :: "int \<Rightarrow> string" where
  "str_int i = (if i < 0 then CHR ''-'' # str_nat (nat (- i)) else str_nat (nat i))"

subsection \<open>json.dumps\<close>

text \<open>
  \<open>json.dumps\<close> with its defaults (\<open>ensure_ascii=True\<close>, items separated by a comma and
  a space, keys by a colon and a space) on the values of \<open>pyval\<close>. Floats do not occur
  in \<open>pyval\<close>. In a string, a backslash, a double quote and the control characters with
  a short escape get that escape, the other characters from space to tilde are kept,
  and every other character becomes the \<open>u\<close>-escape of its code point, in four
  lower-case hexadecimal digits; a code point above \<open>0xFFFF\<close> becomes a surrogate pair.
  \<open>json_escape\<close> reads the code points off the UTF-8 bytes. A byte that does not open a
  complete sequence cannot come from a \<open>str\<close>; it is escaped by its own value.
\<close>

definition hex_digit :: "nat \<Rightarrow> char" where
  "hex_digit n = ''0123456789abcdef'' ! n"

definition json_u_escape :: "nat \<Rightarrow> string" where
  "json_u_escape n =
     [CHR 0x5C, CHR ''u'', hex_digit (n div 4096), hex_digit (n div 256 mod 16),
      hex_digit (n div 16 mod 16), hex_digit (n mod 16)]"

definition json_escape_code_point :: "nat \<Rightarrow> string" where
  "json_escape_code_point cp =
     (if cp < 65536 then json_u_escape cp
      else json_u_escape (55296 + (cp - 65536) div 1024)
           @ json_u_escape (56320 + (cp - 65536) mod 1024))"

definition json_escape_char :: "char \<Rightarrow> string" where
  "json_escape_char c =
     (if c = CHR 0x5C then [CHR 0x5C, CHR 0x5C]
      else if c = CHR 0x22 then [CHR 0x5C, CHR 0x22]
      else if (of_char c :: nat) = 8 then [CHR 0x5C, CHR ''b'']
      else if (of_char c :: nat) = 12 then [CHR 0x5C, CHR ''f'']
      else if (of_char c :: nat) = 10 then [CHR 0x5C, CHR ''n'']
      else if (of_char c :: nat) = 13 then [CHR 0x5C, CHR ''r'']
      else if (of_char c :: nat) = 9 then [CHR 0x5C, CHR ''t'']
      else if 32 \<le> (of_char c :: nat) \<and> (of_char c :: nat) \<le> 126 then [c]
      else json_u_escape (of_char c))"

fun json_escape :: "string \<Rightarrow> string" where
  "json_escape [] = []"
| "json_escape (c # cs) =
     (if 192 \<le> (of_char c :: nat) \<and> (of_char c :: nat) < 224 then
        (case cs of
           c1 # rest \<Rightarrow>
             json_escape_code_point (of_char c mod 32 * 64 + of_char c1 mod 64)
             @ json_escape rest
         | _ \<Rightarrow> json_escape_char c @ json_escape cs)
      else if 224 \<le> (of_char c :: nat) \<and> (of_char c :: nat) < 240 then
        (case cs of
           c1 # c2 # rest \<Rightarrow>
             json_escape_code_point
               (of_char c mod 16 * 4096 + of_char c1 mod 64 * 64 + of_char c2 mod 64)
             @ json_escape rest
         | _ \<Rightarrow> json_escape_char c @ json_escape cs)
      else if 240 \<le> (of_char c :: nat) \<and> (of_char c :: nat) < 248 then
        (case cs of
           c1 # c2 # c3 # rest \<Rightarrow>
             json_escape_code_point
               (of_char c mod 8 * 262144 + of_char c1 mod 64 * 4096
                + of_char c2 mod 64 * 64 + of_char c3 mod 64)
             @ json_escape rest
         | _ \<Rightarrow> json_escape_char c @ json_escape cs)
      else json_escape_char c @ json_escape cs)"

definition json_string :: "string \<Rightarrow> string" where
  "json_string s = [CHR 0x22] @ json_escape s @ [CHR 0x22]"

fun json_dumps :: "pyval \<Rightarrow> string" where
  "json_dumps PNone = ''null''"
| "json_dumps (PBool b) = (if b then ''true'' else ''false'')"
| "json_dumps (PInt i) = str_int i"
| "json_dumps (PStr s) = json_string s"
| "json_dumps (PList xs) = ''['' @ join '', '' (map json_dumps xs) @ '']''"
| "json_dumps (PDict kvs) =
     ''{'' @ join '', '' (map (\<lambda>(k, v). json_string k @ '': '' @ json_dumps v) kvs) @ ''}''"

section \<open>Truth values and outcomes of external calls\<close>

text \<open>Python's truth value of an object, and of the \<open>Optional[str]\<close> token slot.\<close>

fun truthy :: "pyval \<Rightarrow> bool" where
  "truthy PNone = False"
| "truthy (PBool b) = b"
| "truthy (PInt i) = (i \<noteq> 0)"
| "truthy (PStr s) = (s \<noteq> [])"
| "truthy (PList xs) = (xs \<noteq> [])"
| "truthy (PDict kvs) = (kvs \<noteq> [])"

fun truthy_str :: "string option \<Rightarrow> bool" where
  "truthy_str None = False"
| "truthy_str (Some s) = (s \<noteq> [])"

text \<open>
  A call into a collaborator outside the repository (the agent, the OAuth helper, the
  provider's API) either returns a value or raises an \<open>Exception\<close> \<open>e\<close>, kept as
  \<open>str(e)\<close>. Interrupts and cancellation (\<open>BaseException\<close>) are not modelled.
\<close>

datatype 'a outcome = Returns 'a | Raises string

section \<open>The tools\<close>

text \<open>What a tool sent to the provider: the log is empty when nothing was sent.\<close>

datatype api_call =
    CalendarBuild string
  | CalendarEventsList string string
  | HttpGet string string

subsection \<open>get_calendar_events_today (Google script)\<close>

text \<open>
  \<^verbatim>\<open>
  if not google_access_token:
      return json.dumps({"auth_required": True, "message": "...", "events": []})
  creds = Credentials(token=google_access_token, scopes=SCOPES)
  try:
      service = build("calendar", "v3", credentials=creds)
      today_start = datetime.datetime.now().replace(hour=0, ...)
      ...
      events_result = service.events().list(calendarId="primary", timeMin=time_min,
          timeMax=time_max, singleEvents=True, orderBy="startTime").execute()
      events = events_result.get("items", [])
      if not events:
          return json.dumps({"events": []})
      return json.dumps({"events": events})
  except HttpError as error:
      return json.dumps({"error": str(error), "events": []})
  except Exception as e:
      return json.dumps({"error": str(e), "events": []})
  \<close>
  The clock and the Calendar service are parameters: \<open>today\<close> is the current date
  printed as \<open>%Y-%m-%d\<close>, \<open>build_service\<close> the outcome of \<open>build\<close>, \<open>events_list\<close>
  the dictionary \<open>execute()\<close> returns or the error it raises. Constructing
  \<open>Credentials\<close> sends nothing and is taken not to raise.
\<close>

record calendar_api =
  today :: string
  build_service :: "unit outcome"
  events_list :: "(string \<times> pyval) list outcome"

definition auth_required_google :: pyval where
  "auth_required_google =
     PDict [(''auth_required'', PBool True),
            (''message'', PStr ''Google Calendar authentication is required. Please wait while we set up the authorization.''),
            (''events'', PList [])]"

definition calendar_error :: "string \<Rightarrow> string" where
  "calendar_error error_message =
     json_dumps (PDict [(''error'', PStr error_message), (''events'', PList [])])"

definition get_calendar_events_today ::
  "calendar_api \<Rightarrow> string option \<Rightarrow> string \<times> api_call list" where
  "get_calendar_events_today api google_access_token =
     (if \<not> truthy_str google_access_token then (json_dumps auth_required_google, [])
      else
        (case build_service api of
           Raises e \<Rightarrow> (calendar_error e, [CalendarBuild (the google_access_token)])
         | Returns u \<Rightarrow>
             (let time_min = today api @ ''T00:00:00-05:00'';
                  time_max = today api @ ''T23:59:59-05:00'';
                  calls = [CalendarBuild (the google_access_token),
                           CalendarEventsList time_min time_max]
              in case events_list api of
                   Raises e \<Rightarrow> (calendar_error e, calls)
                 | Returns events_result \<Rightarrow>
                     (let events = (case map_of events_result ''items'' of
                                      None \<Rightarrow> PList []
                                    | Some v \<Rightarrow> v)
                      in if \<not> truthy events
                         then (json_dumps (PDict [(''events'', PList [])]), calls)
                         else (json_dumps (PDict [(''events'', events)]), calls)))))"

subsection \<open>inspect_github_repos (GitHub script)\<close>

text \<open>
  \<^verbatim>\<open>
  if not github_access_token:
      return json.dumps({"auth_required": True, "message": "...", "events": []})
  headers = {"Authorization": f"Bearer {github_access_token}"}
  try:
      with httpx.Client() as client:
          user_response = client.get("https://api.github.com/user", headers=headers)
          user_response.raise_for_status()
          username = user_response.json().get("login", "Unknown")
          repos_response = client.get(
              f"https://api.github.com/search/repositories?q=user:{username}", headers=headers)
          repos_response.raise_for_status()
          repos = repos_response.json().get('items', [])
          if not repos:
              return f"No repositories found for {username}."
          response_lines = [f"GitHub repositories for {username}:\n"]
          for repo in repos: ...
          return "\n".join(response_lines)
  except httpx.HTTPStatusError as e:
      return f"GitHub API error: {e.response.status_code} - {e.response.text}"
  except Exception as e:
      return f"Error fetching GitHub repositories: {str(e)}"
  \<close>
  GitHub's answers are parameters, typed as GitHub documents them: a request gives the
  decoded value, or \<open>raise_for_status\<close> raises with the status code and body, or
  anything else raises. \<open>get_user\<close> gives the \<open>login\<close> field of the user object, if it
  has one. The two symbols in the listing are the UTF-8 bytes of U+1F4C1 and U+2B50. Output on
  the console (\<open>print\<close>) is not part of the model.
\<close>

datatype 'a http = HttpOk 'a | HttpStatusError nat string | HttpFailed string

record repo =
  repo_name :: string
  repo_language :: "string option"
  repo_stargazers_count :: int
  repo_description :: "string option"

record github_api =
  get_user :: "string option http"
  search_repositories :: "string \<Rightarrow> repo list http"

definition auth_required_github :: pyval where
  "auth_required_github =
     PDict [(''auth_required'', PBool True),
            (''message'', PStr ''GitHub authentication is required. Please wait while we set up the authorization.''),
            (''events'', PList [])]"

definition repo_lines :: "repo \<Rightarrow> string list" where
  "repo_lines r =
     (let repo_line = [CHR 0xF0, CHR 0x9F, CHR 0x93, CHR 0x81] @ '' '' @ repo_name r;
          repo_line = (if truthy_str (repo_language r)
                       then repo_line @ '' ('' @ the (repo_language r) @ '')''
                       else repo_line);
          repo_line = repo_line @ '' - '' @ [CHR 0xE2, CHR 0xAD, CHR 0x90] @ '' ''
                        @ str_int (repo_stargazers_count r)
      in [repo_line]
         @ (if truthy_str (repo_description r) then [''   '' @ the (repo_description r)] else [])
         @ [[]])"

definition github_api_error :: "nat \<Rightarrow> string \<Rightarrow> string" where
  "github_api_error status_code body =
     ''GitHub API error: '' @ str_nat status_code @ '' - '' @ body"

definition github_fetch_error :: "string \<Rightarrow> string" where
  "github_fetch_error e = ''Error fetching GitHub repositories: '' @ e"

definition inspect_github_repos ::
  "github_api \<Rightarrow> string option \<Rightarrow> string \<times> api_call list" where
  "inspect_github_repos api github_access_token =
     (if \<not> truthy_str github_access_token then (json_dumps auth_required_github, [])
      else
        (let bearer = ''Bearer '' @ the github_access_token;
             user_call = HttpGet ''https://api.github.com/user'' bearer
         in case get_user api of
              HttpStatusError status_code body \<Rightarrow>
                (github_api_error status_code body, [user_call])
            | HttpFailed e \<Rightarrow> (github_fetch_error e, [user_call])
            | HttpOk login \<Rightarrow>
                (let username = (case login of None \<Rightarrow> ''Unknown'' | Some l \<Rightarrow> l);
                     calls = [user_call,
                              HttpGet (''https://api.github.com/search/repositories?q=user:''
                                         @ username) bearer]
                 in case search_repositories api username of
                      HttpStatusError status_code body \<Rightarrow>
                        (github_api_error status_code body, calls)
                    | HttpFailed e \<Rightarrow> (github_fetch_error e, calls)
                    | HttpOk repos \<Rightarrow>
                        if repos = [] then (''No repositories found for '' @ username @ ''.'', calls)
                        else (join [CHR 0x0A]
                                ((''GitHub repositories for '' @ username @ '':'' @ [CHR 0x0A])
                                 # concat (map repo_lines repos)), calls))))"

section \<open>The background task\<close>

text \<open>
  What the task does besides queue operations: it calls the agent, at most twice, and
  the OAuth helper, and it stores the token. The state of a task records the queue
  operations performed so far, the provider's token slot, and how often each
  collaborator has been called.
\<close>

record task_state =
  emitted :: "op list"
  global_access_token :: "string option"
  agent_calls :: nat
  auth_calls :: nat

definition initial_task :: "string option \<Rightarrow> task_state" where
  "initial_task token =
     \<lparr>emitted = [], global_access_token = token, agent_calls = 0, auth_calls = 0\<rparr>"

definition queue_put :: "pyval \<Rightarrow> task_state \<Rightarrow> task_state" where
  "queue_put item s = s\<lparr>emitted := emitted s @ [Put item]\<rparr>"

definition queue_finish :: "task_state \<Rightarrow> task_state" where
  "queue_finish s = s\<lparr>emitted := emitted s @ [Finish]\<rparr>"

text \<open>
  The collaborators are parameters. \<open>agent env user_message n\<close> is the outcome of the
  call \<open>agent(user_message)\<close> made after \<open>n\<close> earlier calls of the task: the
  \<open>message\<close> of the response (every response has one), or an exception. \<open>str_of\<close> is
  Python's \<open>str()\<close>.
  \<open>auth_urls\<close> are the authorization URLs the OAuth helper hands to \<open>on_auth_url\<close>, and
  \<open>auth_token\<close> is the outcome of the exchange.
\<close>

record env =
  agent :: "pyval \<Rightarrow> nat \<Rightarrow> pyval outcome"
  str_of :: "pyval \<Rightarrow> string"
  auth_urls :: "string list"
  auth_token :: "string outcome"

definition call_agent :: "env \<Rightarrow> pyval \<Rightarrow> task_state \<Rightarrow> pyval outcome \<times> task_state" where
  "call_agent env user_message s =
     (agent env user_message (agent_calls s), s\<lparr>agent_calls := agent_calls s + 1\<rparr>)"

text \<open>
  \<^verbatim>\<open>
  @requires_access_token(provider_name=..., scopes=..., auth_flow='USER_FEDERATION',
                         on_auth_url=on_auth_url, force_authentication=..., callback_url=...)
  async def need_token_3lo_async(*, access_token: str) -> str:
      global google_access_token
      google_access_token = access_token
      return access_token
  \<close>
  The decorator belongs to the \<open>bedrock_agentcore\<close> library: it performs the exchange,
  passing each authorization URL to \<open>on_auth_url\<close>, and then either raises or calls the
  decorated function with the token.
\<close>

definition need_token_3lo_async :: "string \<Rightarrow> task_state \<Rightarrow> string \<times> task_state" where
  "need_token_3lo_async access_token s =
     (access_token, s\<lparr>global_access_token := Some access_token\<rparr>)"

definition requires_access_token ::
  "env \<Rightarrow> (string \<Rightarrow> task_state \<Rightarrow> task_state) \<Rightarrow>
   (string \<Rightarrow> task_state \<Rightarrow> string \<times> task_state) \<Rightarrow> task_state \<Rightarrow>
   string outcome \<times> task_state" where
  "requires_access_token env on_auth_url f s =
     (let s1 = fold on_auth_url (auth_urls env) (s\<lparr>auth_calls := auth_calls s + 1\<rparr>)
      in case auth_token env of
           Raises e \<Rightarrow> (Raises e, s1)
         | Returns token \<Rightarrow> (let (r, s2) = f token s1 in (Returns r, s2)))"

subsection \<open>Does the response ask for authorization?\<close>

text \<open>
  \<^verbatim>\<open>
  auth_keywords = ["authentication", "authorize", "authorization", "auth",
                   "sign in", "login", "access", "permission", "credential",
                   "need authentication", "requires authentication"]
  return any(keyword.lower() in response_text.lower() for keyword in auth_keywords)
  \<close>
  \<open>needs_authentication\<close> of the GitHub script; the Google script has the same list
  and the same expression inside \<open>agent_task\<close>.
\<close>

definition auth_keywords :: "string list" where
  "auth_keywords =
     [''authentication'', ''authorize'', ''authorization'', ''auth'',
      ''sign in'', ''login'', ''access'', ''permission'', ''credential'',
      ''need authentication'', ''requires authentication'']"

definition needs_authentication :: "string \<Rightarrow> bool" where
  "needs_authentication response_text =
     list_ex (\<lambda>keyword. str_in (lower keyword) (lower response_text)) auth_keywords"

subsection \<open>The text of a response\<close>

definition type_name :: "pyval \<Rightarrow> string" where
  "type_name v =
     (case v of
        PNone \<Rightarrow> ''NoneType''
      | PBool b \<Rightarrow> ''bool''
      | PInt i \<Rightarrow> ''int''
      | PStr s \<Rightarrow> ''str''
      | PList xs \<Rightarrow> ''list''
      | PDict kvs \<Rightarrow> ''dict'')"

text \<open>
  Google script, inside \<open>agent_task\<close>:
  \<^verbatim>\<open>
  response_text = ""
  if isinstance(response.message, dict):
      content = response.message.get('content', [])
      if isinstance(content, list):
          for item in content:
              if isinstance(item, dict) and 'text' in item:
                  response_text += item['text']
  else:
      response_text = str(response.message)
  \<close>
  Adding a value that is not a string to a string raises \<open>TypeError\<close>.
\<close>

fun concat_text :: "pyval list \<Rightarrow> string \<Rightarrow> string outcome" where
  "concat_text [] response_text = Returns response_text"
| "concat_text (item # rest) response_text =
     (case item of
        PDict d \<Rightarrow>
          (case map_of d ''text'' of
             None \<Rightarrow> concat_text rest response_text
           | Some (PStr t) \<Rightarrow> concat_text rest (response_text @ t)
           | Some v \<Rightarrow>
               Raises (''can only concatenate str (not '' @ [CHR 0x22] @ type_name v
                         @ [CHR 0x22] @ '') to str''))
      | _ \<Rightarrow> concat_text rest response_text)"

definition response_text_google :: "(pyval \<Rightarrow> string) \<Rightarrow> pyval \<Rightarrow> string outcome" where
  "response_text_google str message =
     (case message of
        PDict d \<Rightarrow>
          (case (case map_of d ''content'' of None \<Rightarrow> PList [] | Some c \<Rightarrow> c) of
             PList content \<Rightarrow> concat_text content []
           | _ \<Rightarrow> Returns [])
      | _ \<Rightarrow> Returns (str message))"

text \<open>
  GitHub script:
  \<^verbatim>\<open>
  def extract_response_text(response) -> str:
      if isinstance(response.message, dict):
          content = response.message.get('content', [])
          if isinstance(content, list):
              return "".join(item.get('text', '') for item in content
                             if isinstance(item, dict) and 'text' in item)
      return str(response.message)
  \<close>
  \<open>str.join\<close> collects the generated values and raises \<open>TypeError\<close> at the first one
  that is not a string, naming its position.
\<close>

definition text_values :: "pyval list \<Rightarrow> pyval list" where
  "text_values content =
     List.map_filter (\<lambda>item. case item of PDict d \<Rightarrow> map_of d ''text'' | _ \<Rightarrow> None) content"

fun join_text :: "pyval list \<Rightarrow> nat \<Rightarrow> string outcome" where
  "join_text [] i = Returns []"
| "join_text (v # vs) i =
     (case v of
        PStr t \<Rightarrow>
          (case join_text vs (i + 1) of
             Returns r \<Rightarrow> Returns (t @ r)
           | Raises e \<Rightarrow> Raises e)
      | _ \<Rightarrow>
          Raises (''sequence item '' @ str_nat i @ '': expected str instance, ''
                    @ type_name v @ '' found''))"

definition extract_response_text :: "(pyval \<Rightarrow> string) \<Rightarrow> pyval \<Rightarrow> string outcome" where
  "extract_response_text str message =
     (case message of
        PDict d \<Rightarrow>
          (case (case map_of d ''content'' of None \<Rightarrow> PList [] | Some c \<Rightarrow> c) of
             PList content \<Rightarrow> join_text (text_values content) 0
           | _ \<Rightarrow> Returns (str message))
      | _ \<Rightarrow> Returns (str message))"

subsection \<open>agent_task (Google script)\<close>

text \<open>
  \<^verbatim>\<open>
  async def agent_task(user_message: str) -> None:
      try:
          await queue.put("Begin agent execution")
          response = agent(user_message)
          ... response_text, needs_auth ...
          if needs_auth:
              await queue.put("Authentication required for Google Calendar access. ...")
              try:
                  global google_access_token
                  google_access_token = await need_token_3lo_async(access_token='')
                  await queue.put("Authentication successful! Retrying calendar request...")
                  response = agent(user_message)
              except Exception as auth_error:
                  print(f"auth_error: {auth_error}")
                  await queue.put(f"Authentication failed: {str(auth_error)}")
          await queue.put(response.message)
          await queue.put("End agent execution")
      except Exception as e:
          await queue.put(f"Error: {str(e)}")
      finally:
          await queue.finish()
  \<close>
  The body of the outer \<open>try\<close> gives the exception that leaves it, if any, and the
  state reached.
\<close>

definition on_auth_url_google :: "string \<Rightarrow> task_state \<Rightarrow> task_state" where
  "on_auth_url_google url s = queue_put (PStr (''Authorization url: '' @ url)) s"

definition put_result :: "pyval \<Rightarrow> task_state \<Rightarrow> string option \<times> task_state" where
  "put_result message s =
     (None, queue_put (PStr ''End agent execution'') (queue_put message s))"

definition agent_task_body_google ::
  "env \<Rightarrow> pyval \<Rightarrow> task_state \<Rightarrow> string option \<times> task_state" where
  "agent_task_body_google env user_message s0 =
     (let s1 = queue_put (PStr ''Begin agent execution'') s0;
          (r1, s2) = call_agent env user_message s1
      in case r1 of
           Raises e \<Rightarrow> (Some e, s2)
         | Returns message \<Rightarrow>
             (case response_text_google (str_of env) message of
                Raises e \<Rightarrow> (Some e, s2)
              | Returns response_text \<Rightarrow>
                  if needs_authentication response_text then
                    (let s3 = queue_put (PStr ''Authentication required for Google Calendar access. Starting authorization flow...'') s2;
                         (r2, s4) = requires_access_token env on_auth_url_google
                                      need_token_3lo_async s3
                     in case r2 of
                          Raises auth_error \<Rightarrow>
                            put_result message
                              (queue_put (PStr (''Authentication failed: '' @ auth_error)) s4)
                        | Returns token \<Rightarrow>
                            (let s5 = queue_put (PStr ''Authentication successful! Retrying calendar request...'')
                                        (s4\<lparr>global_access_token := Some token\<rparr>);
                                 (r3, s6) = call_agent env user_message s5
                             in case r3 of
                                  Raises auth_error \<Rightarrow>
                                    put_result message
                                      (queue_put (PStr (''Authentication failed: '' @ auth_error)) s6)
                                | Returns retried \<Rightarrow> put_result retried s6))
                  else put_result message s2))"

definition handle_and_finish :: "string option \<times> task_state \<Rightarrow> task_state" where
  "handle_and_finish r =
     (case r of
        (None, s) \<Rightarrow> queue_finish s
      | (Some e, s) \<Rightarrow> queue_finish (queue_put (PStr (''Error: '' @ e)) s))"

definition agent_task_google :: "env \<Rightarrow> pyval \<Rightarrow> task_state \<Rightarrow> task_state" where
  "agent_task_google env user_message s0 =
     handle_and_finish (agent_task_body_google env user_message s0)"

subsection \<open>agent_task (GitHub script)\<close>

text \<open>
  \<^verbatim>\<open>
  async def agent_task(user_message: str) -> None:
      global github_access_token
      try:
          await queue.put("Begin agent execution")
          response = agent(user_message)
          response_text = extract_response_text(response)
          if needs_authentication(response_text):
              await queue.put("Authentication required for GitHub access. ...")
              try:
                  github_access_token = await need_token_3LO_async(access_token='')
                  await queue.put("Authentication successful! Retrying GitHub request...")
                  response = agent(user_message)
              except Exception as auth_error:
                  print(f"Authentication error: {auth_error}")
                  await queue.put(f"Authentication failed: {str(auth_error)}")
                  return
          await queue.put(response.message)
          await queue.put("End agent execution")
      except Exception as e:
          await queue.put(f"Error: {str(e)}")
      finally:
          await queue.finish()
  \<close>
\<close>

definition on_auth_url_github :: "string \<Rightarrow> task_state \<Rightarrow> task_state" where
  "on_auth_url_github url s = queue_put (PStr (''Authorization URL: '' @ url)) s"

definition agent_task_body_github ::
  "env \<Rightarrow> pyval \<Rightarrow> task_state \<Rightarrow> string option \<times> task_state" where
  "agent_task_body_github env user_message s0 =
     (let s1 = queue_put (PStr ''Begin agent execution'') s0;
          (r1, s2) = call_agent env user_message s1
      in case r1 of
           Raises e \<Rightarrow> (Some e, s2)
         | Returns message \<Rightarrow>
             (case extract_response_text (str_of env) message of
                Raises e \<Rightarrow> (Some e, s2)
              | Returns response_text \<Rightarrow>
                  if needs_authentication response_text then
                    (let s3 = queue_put (PStr ''Authentication required for GitHub access. Starting authorization flow...'') s2;
                         (r2, s4) = requires_access_token env on_auth_url_github
                                      need_token_3lo_async s3
                     in case r2 of
                          Raises auth_error \<Rightarrow>
                            (None, queue_put (PStr (''Authentication failed: '' @ auth_error)) s4)
                        | Returns token \<Rightarrow>
                            (let s5 = queue_put (PStr ''Authentication successful! Retrying GitHub request...'')
                                        (s4\<lparr>global_access_token := Some token\<rparr>);
                                 (r3, s6) = call_agent env user_message s5
                             in case r3 of
                                  Raises auth_error \<Rightarrow>
                                    (None, queue_put (PStr (''Authentication failed: '' @ auth_error)) s6)
                                | Returns retried \<Rightarrow> put_result retried s6))
                  else put_result message s2))"

definition agent_task_github :: "env \<Rightarrow> pyval \<Rightarrow> task_state \<Rightarrow> task_state" where
  "agent_task_github env user_message s0 =
     handle_and_finish (agent_task_body_github env user_message s0)"

section \<open>Requests\<close>

text \<open>
  \<^verbatim>\<open>
  queue = StreamingQueue()          # module level, in both scripts

  @app.entrypoint
  async def agent_invocation(payload):
      user_message = payload.get("prompt", "No prompt found in input, ...")
      task = asyncio.create_task(agent_task(user_message))
      async def stream_with_task(): ...
      return stream_with_task()
  \<close>
  The queue and the token slot belong to the module: a request finds them as the
  requests before it left them. \<open>agent_task\<close> handles every exception, so the task
  ends without one.
\<close>

record module_state =
  module_queue :: StreamingQueue
  module_access_token :: "string option"

definition module_init :: module_state where
  "module_init = \<lparr>module_queue = StreamingQueue_init, module_access_token = None\<rparr>"

definition prompt_google :: "(string \<times> pyval) list \<Rightarrow> pyval" where
  "prompt_google payload =
     (case map_of payload ''prompt'' of
        None \<Rightarrow> PStr ''No prompt found in input, please guide customer to create a json payload with prompt key''
      | Some v \<Rightarrow> v)"

definition prompt_github :: "(string \<times> pyval) list \<Rightarrow> pyval" where
  "prompt_github payload =
     (case map_of payload ''prompt'' of
        None \<Rightarrow> PStr ''No prompt found in input, please guide customer to create a JSON payload with prompt key''
      | Some v \<Rightarrow> v)"

definition agent_invocation_google ::
  "env \<Rightarrow> (string \<times> pyval) list \<Rightarrow> module_state \<Rightarrow> system" where
  "agent_invocation_google env payload m =
     start (module_queue m)
       (emitted (agent_task_google env (prompt_google payload)
                   (initial_task (module_access_token m))))
       None"

definition agent_invocation_github ::
  "env \<Rightarrow> (string \<times> pyval) list \<Rightarrow> module_state \<Rightarrow> system" where
  "agent_invocation_github env payload m =
     start (module_queue m)
       (emitted (agent_task_github env (prompt_github payload)
                   (initial_task (module_access_token m))))
       None"

text \<open>
  The module after a request that was served under the schedule \<open>sched\<close>: the queue as
  the run left it, the token slot as the task left it.
\<close>

definition after_request_google ::
  "env \<Rightarrow> (string \<times> pyval) list \<Rightarrow> turn list \<Rightarrow> module_state \<Rightarrow> module_state" where
  "after_request_google env payload sched m =
     \<lparr>module_queue = sq (run sched (agent_invocation_google env payload m)),
      module_access_token =
        global_access_token (agent_task_google env (prompt_google payload)
                               (initial_task (module_access_token m)))\<rparr>"

definition after_request_github ::
  "env \<Rightarrow> (string \<times> pyval) list \<Rightarrow> turn list \<Rightarrow> module_state \<Rightarrow> module_state" where
  "after_request_github env payload sched m =
     \<lparr>module_queue = sq (run sched (agent_invocation_github env payload m)),
      module_access_token =
        global_access_token (agent_task_github env (prompt_github payload)
                               (initial_task (module_access_token m)))\<rparr>"

section \<open>Properties of the queue and of a run\<close>

lemma inv_start: "stream_inv b ops (start \<lparr>finished = b, queue = []\<rparr> ops err)"
  by (simp add: stream_inv_def start_def)

lemma inv_task_step:
  assumes "stream_inv b ops s"
  shows "stream_inv b ops (task_step s)"
proof (cases "pending s")
  case Nil
  then show ?thesis using assms by (simp add: task_step_def)
next
  case (Cons x rest)
  from assms obtain d0 st d2 where h:
    "ops = d0 @ st @ d2 @ pending s" "delivered s = map item_of d0"
    "queue (sq s) = map item_of d2"
    "finished (sq s) = (b \<or> Finish \<in> set (d0 @ st @ d2))"
    "Finish \<notin> set d0" "b \<longrightarrow> PNone \<notin> set (delivered s)"
    "if phase s = Draining then st = []
         else finished (sq s) \<and> (\<exists>x. st = [x] \<and> item_of x = PNone)"
    unfolding stream_inv_def by blast
  show ?thesis
    unfolding stream_inv_def
    apply (rule exI [of _ d0], rule exI [of _ st], rule exI [of _ "d2 @ [x]"])
    using h Cons
    by (cases x) (auto simp: task_step_def put_def finish_def split: if_splits)
qed

lemma inv_consumer:
  assumes "stream_inv b ops s"
  shows "stream_inv b ops (stream_with_task s)"
proof -
  from assms obtain d0 st d2 where h:
    "ops = d0 @ st @ d2 @ pending s" "delivered s = map item_of d0"
    "queue (sq s) = map item_of d2"
    "finished (sq s) = (b \<or> Finish \<in> set (d0 @ st @ d2))"
    "Finish \<notin> set d0" "b \<longrightarrow> PNone \<notin> set (delivered s)"
    "if phase s = Draining then st = []
         else finished (sq s) \<and> (\<exists>x. st = [x] \<and> item_of x = PNone)"
    unfolding stream_inv_def by blast
  show ?thesis
  proof (cases "phase s")
    case Draining
    show ?thesis
    proof (cases d2)
      case Nil
      then show ?thesis using assms h Draining
        by (simp add: stream_with_task_def stream_def)
    next
      case (Cons y d2')
      show ?thesis
      proof (cases "item_of y = PNone \<and> finished (sq s)")
        case True
        show ?thesis
          unfolding stream_inv_def
          apply (rule exI [of _ d0], rule exI [of _ "[y]"], rule exI [of _ d2'])
          using h Cons Draining True
          by (auto simp: stream_with_task_def stream_def)
      next
        case False
        show ?thesis
          unfolding stream_inv_def
          apply (rule exI [of _ "d0 @ [y]"], rule exI [of _ "[]"], rule exI [of _ d2'])
          using h Cons Draining False
          by (cases y) (auto simp: stream_with_task_def stream_def)
      qed
    qed
  next
    case AwaitingTask
    show ?thesis
      unfolding stream_inv_def
      apply (rule exI [of _ d0], rule exI [of _ st], rule exI [of _ d2])
      using h AwaitingTask by (auto simp: stream_with_task_def)
  next
    case (Returned e)
    then show ?thesis using assms by (simp add: stream_with_task_def)
  qed
qed

lemma inv_run: "stream_inv b ops s \<Longrightarrow> stream_inv b ops (run sched s)"
  unfolding run_def
proof (induction sched arbitrary: s)
  case Nil then show ?case by simp
next
  case (Cons t sched)
  then show ?case by (cases t) (simp_all add: inv_task_step inv_consumer)
qed


lemma run_append: "run (a @ b) s = run b (run a s)"
  by (simp add: run_def)

lemma run_Cons: "run (t # ts) s = run ts (step t s)"
  by (simp add: run_def)

lemma run_Nil: "run [] s = s"
  by (simp add: run_def)

lemma returned_stays: "phase s = Returned e \<Longrightarrow> run (replicate k Consumer) s = s"
  by (induction k) (simp_all add: run_Cons run_Nil stream_with_task_def)

lemma pending_task_turns: "pending (run (replicate n Task) s) = drop n (pending s)"
proof (induction n arbitrary: s)
  case 0 then show ?case by (simp add: run_Nil)
next
  case (Suc n)
  show ?case
    by (cases "pending s") (simp_all add: run_Cons Suc task_step_def)
qed

lemma task_error_step: "task_error (step t s) = task_error s"
  by (cases t)
     (auto simp: task_step_def stream_with_task_def split: list.splits phase.splits prod.splits stream_event.splits)

lemma task_error_run: "task_error (run sched s) = task_error s"
  unfolding run_def by (induction sched arbitrary: s) (simp_all add: task_error_step)

lemma returned_ok_step: "returned_ok s \<Longrightarrow> returned_ok (step t s)"
  by (cases t)
     (auto simp: returned_ok_def task_step_def stream_with_task_def
           split: list.splits phase.splits prod.splits stream_event.splits)

lemma returned_ok_run: "returned_ok s \<Longrightarrow> returned_ok (run sched s)"
  unfolding run_def by (induction sched arbitrary: s) (simp_all add: returned_ok_step)

lemma consumer_turns_return:
  assumes "pending s = []" "finished (sq s)"
    and "phase s = Draining \<longrightarrow> PNone \<in> set (queue (sq s))"
    and "\<forall>e. phase s = Returned e \<longrightarrow> e = task_error s"
    and "length (queue (sq s)) < m"
  shows "phase (run (replicate m Consumer) s) = Returned (task_error s)"
  using assms
proof (induction m arbitrary: s)
  case 0 then show ?case by simp
next
  case (Suc m)
  show ?case
  proof (cases "phase s")
    case (Returned e)
    have "run (replicate (Suc m) Consumer) s = s" by (rule returned_stays [OF Returned])
    with Returned Suc.prems(4) show ?thesis by metis
  next
    case AwaitingTask
    let ?s' = "stream_with_task s"
    have s': "?s' = s\<lparr>phase := Returned (task_error s)\<rparr>"
      using AwaitingTask Suc.prems by (simp add: stream_with_task_def)
    have "phase ?s' = Returned (task_error s)" by (simp add: s')
    from returned_stays [OF this] show ?thesis by (simp add: run_Cons s')
  next
    case Draining
    then obtain x rest where q: "queue (sq s) = x # rest"
      using Suc.prems by (cases "queue (sq s)") auto
    let ?s' = "stream_with_task s"
    have "pending ?s' = []" "finished (sq ?s')" "task_error ?s' = task_error s"
      "phase ?s' = Draining \<longrightarrow> PNone \<in> set (queue (sq ?s'))"
      "\<forall>e. phase ?s' = Returned e \<longrightarrow> e = task_error ?s'"
      "length (queue (sq ?s')) < m"
      using Draining q Suc.prems
      by (auto simp: stream_with_task_def stream_def)
    from Suc.IH [OF this(1,2,4,5,6)] this(3)
    show ?thesis by (simp add: run_Cons)
  qed
qed


lemma item_of_Put: "map (item_of \<circ> Put) xs = xs"
  by (induction xs) simp_all

lemma Finish_notin_Put: "Finish \<notin> set (map Put xs)"
  by auto

lemma prefix_before_Finish:
  assumes "d0 @ rest = a @ Finish # post" "Finish \<notin> set d0"
  shows "prefix d0 a"
proof -
  have "prefix d0 (a @ Finish # post)" using assms(1) by (metis prefixI)
  then consider "prefix d0 a" | us where "d0 = a @ us" "prefix us (Finish # post)"
    by (auto simp: prefix_append)
  then show ?thesis
  proof cases
    case 1 then show ?thesis .
  next
    case 2
    then have "us = []" using assms(2) by (cases us) auto
    then show ?thesis using 2 by simp
  qed
qed

lemma delivered_prefix:
  assumes "stream_inv b (map Put xs @ Finish # post) s"
  shows "prefix (delivered s) xs"
proof -
  from assms obtain d0 st d2 where h:
    "map Put xs @ Finish # post = d0 @ st @ d2 @ pending s"
    "delivered s = map item_of d0" "Finish \<notin> set d0"
    unfolding stream_inv_def by blast
  have "prefix d0 (map Put xs)"
    using prefix_before_Finish [OF h(1) [symmetric] h(3)] .
  then have "prefix (map item_of d0) (map item_of (map Put xs))"
    by (rule map_mono_prefix)
  then show ?thesis by (simp add: h(2) item_of_Put)
qed

lemma stopped_all_delivered:
  assumes "stream_inv b (map Put xs @ Finish # post) s" "PNone \<notin> set xs"
    and "phase s \<noteq> Draining"
  shows "delivered s = xs \<and> finished (sq s) \<and>
         (\<exists>d. post = d @ pending s \<and> queue (sq s) = map item_of d)"
proof -
  from assms(1,3) obtain d0 x d2 where h:
    "map Put xs @ Finish # post = d0 @ [x] @ d2 @ pending s"
    "delivered s = map item_of d0" "Finish \<notin> set d0"
    "queue (sq s) = map item_of d2" "finished (sq s)" "item_of x = PNone"
    unfolding stream_inv_def by (auto split: if_splits)
  have pre: "prefix d0 (map Put xs)"
    using prefix_before_Finish [OF h(1) [symmetric] h(3)] .
  then obtain r where r: "map Put xs = d0 @ r" by (auto simp: prefix_def)
  have "r = []"
  proof (cases r)
    case Nil then show ?thesis .
  next
    case (Cons y r')
    then have "y = x" using h(1) r by simp
    moreover have "y \<in> set (map Put xs)" using r Cons by simp
    ultimately obtain v where "x = Put v" "v \<in> set xs" by auto
    then show ?thesis using h(6) assms(2) by simp
  qed
  then have d0: "d0 = map Put xs" using r by simp
  then have "Finish # post = x # d2 @ pending s" using h(1) by simp
  then have "post = d2 @ pending s" by simp
  then show ?thesis using h d0 by (auto simp: item_of_Put)
qed

lemma completes:
  assumes inv: "stream_inv b (map Put xs @ [Finish]) s" and ok: "returned_ok s"
    and n: "length xs < n" and m: "Suc (length xs) < m"
  shows "phase (run (replicate n Task @ replicate m Consumer) s) = Returned (task_error s)"
proof -
  let ?t = "run (replicate n Task) s"
  have invt: "stream_inv b (map Put xs @ [Finish]) ?t" using inv by (rule inv_run)
  from inv obtain e0 e1 e2 where "map Put xs @ [Finish] = e0 @ e1 @ e2 @ pending s"
    unfolding stream_inv_def by blast
  then have "length (pending s) \<le> length (map Put xs @ [Finish])"
    by (metis length_append le_add2 trans_le_add2)
  then have pend: "pending ?t = []" using n by (simp add: pending_task_turns)
  from invt obtain d0 st d2 where h:
    "map Put xs @ [Finish] = d0 @ st @ d2 @ pending ?t"
    "queue (sq ?t) = map item_of d2"
    "finished (sq ?t) = (b \<or> Finish \<in> set (d0 @ st @ d2))"
    "Finish \<notin> set d0"
    "if phase ?t = Draining then st = []
         else finished (sq ?t) \<and> (\<exists>x. st = [x] \<and> item_of x = PNone)"
    unfolding stream_inv_def by blast
  have all: "d0 @ st @ d2 = map Put xs @ [Finish]" using h(1) pend by simp
  have fin: "finished (sq ?t)" using h(3) all by simp
  have sen: "phase ?t = Draining \<longrightarrow> PNone \<in> set (queue (sq ?t))"
  proof
    assume "phase ?t = Draining"
    then have "st = []" using h(5) by simp
    then have "Finish \<in> set (d0 @ d2)" using all by (metis append_Nil in_set_conv_decomp)
    then have "Finish \<in> set d2" using h(4) by simp
    then have "item_of Finish \<in> item_of ` set d2" by (rule imageI)
    then show "PNone \<in> set (queue (sq ?t))" by (simp add: h(2))
  qed
  have "length d2 \<le> length (d0 @ st @ d2)" by simp
  then have len: "length (queue (sq ?t)) < m" using m by (simp add: h(2) all)
  have rok: "\<forall>e. phase ?t = Returned e \<longrightarrow> e = task_error ?t"
    using returned_ok_run [OF ok, of "replicate n Task"] by (simp add: returned_ok_def)
  from consumer_turns_return [OF pend fin sen rok len]
  show ?thesis by (simp add: run_append task_error_run)
qed

lemma returned_ok_start: "returned_ok (start q ops err)"
  by (simp add: returned_ok_def start_def)

lemma task_error_start: "task_error (start q ops err) = err"
  by (simp add: start_def)

subsection \<open>Every run with a finish ahead comes to an end\<close>

lemma will_stop_step: "will_stop s \<Longrightarrow> will_stop (step t s)"
proof (cases t)
  case Task
  assume ws: "will_stop s"
  show ?thesis
  proof (cases "pending s")
    case Nil
    then show ?thesis using ws Task by (simp add: task_step_def)
  next
    case (Cons x rest)
    then show ?thesis using ws Task
      by (cases x) (auto simp: will_stop_def task_step_def put_def finish_def)
  qed
next
  case Consumer
  assume ws: "will_stop s"
  show ?thesis
  proof (cases "queue (sq s)")
    case Nil
    then show ?thesis using ws Consumer
      by (auto simp: will_stop_def stream_with_task_def stream_def split: phase.splits)
  next
    case (Cons x rest)
    then show ?thesis using ws Consumer
      by (auto simp: will_stop_def stream_with_task_def stream_def split: phase.splits)
  qed
qed

lemma will_stop_run: "will_stop s \<Longrightarrow> will_stop (run sched s)"
  unfolding run_def by (induction sched arbitrary: s) (simp_all add: will_stop_step)

lemma load_step: "length (queue (sq (step t s))) + length (pending (step t s))
                  \<le> length (queue (sq s)) + length (pending s)"
proof (cases t)
  case Task
  show ?thesis
  proof (cases "pending s")
    case Nil then show ?thesis using Task by (simp add: task_step_def)
  next
    case (Cons x rest)
    then show ?thesis using Task
      by (cases x) (simp_all add: task_step_def put_def finish_def)
  qed
next
  case Consumer
  then show ?thesis
    by (cases "queue (sq s)")
       (auto simp: stream_with_task_def stream_def split: phase.splits)
qed

lemma load_run: "length (queue (sq (run sched s))) + length (pending (run sched s))
                  \<le> length (queue (sq s)) + length (pending s)"
  unfolding run_def
proof (induction sched arbitrary: s)
  case Nil then show ?case by simp
next
  case (Cons t sched)
  have "length (queue (sq (fold step sched (step t s)))) + length (pending (fold step sched (step t s)))
        \<le> length (queue (sq (step t s))) + length (pending (step t s))" by (rule Cons.IH)
  also have "\<dots> \<le> length (queue (sq s)) + length (pending s)" by (rule load_step)
  finally show ?case by simp
qed

lemma pending_step: "length (pending (step t s)) \<le> length (pending s)"
  by (cases t)
     (auto simp: task_step_def stream_with_task_def
           split: list.splits phase.splits prod.splits stream_event.splits)

lemma pending_run: "length (pending (run sched s)) \<le> length (pending s)"
  unfolding run_def
proof (induction sched arbitrary: s)
  case Nil then show ?case by simp
next
  case (Cons t sched)
  have "length (pending (fold step sched (step t s))) \<le> length (pending (step t s))"
    by (rule Cons.IH)
  also have "\<dots> \<le> length (pending s)" by (rule pending_step)
  finally show ?case by simp
qed

lemma run_to_return:
  assumes ws: "will_stop s" and ok: "returned_ok s"
    and n: "length (pending s) \<le> n"
    and k: "length (queue (sq s)) + length (pending s) < k"
  shows "phase (run (replicate n Task @ replicate k Consumer) s) = Returned (task_error s)"
proof -
  let ?t = "run (replicate n Task) s"
  have pend: "pending ?t = []" using n by (simp add: pending_task_turns)
  have "will_stop ?t" using ws by (rule will_stop_run)
  then have fin: "finished (sq ?t)"
    and sen: "phase ?t = Draining \<longrightarrow> PNone \<in> set (queue (sq ?t))"
    using pend by (auto simp: will_stop_def)
  have "length (queue (sq ?t)) + length (pending ?t) \<le> length (queue (sq s)) + length (pending s)"
    by (rule load_run)
  then have len: "length (queue (sq ?t)) < k" using k by simp
  have rok: "\<forall>e. phase ?t = Returned e \<longrightarrow> e = task_error ?t"
    using returned_ok_run [OF ok, of "replicate n Task"] by (simp add: returned_ok_def)
  from consumer_turns_return [OF pend fin sen rok len]
  show ?thesis by (simp add: run_append task_error_run)
qed

lemma complete_from_reachable:
  assumes "Finish \<in> set ops"
  shows "phase (run (sched @ complete_schedule (start q ops err)) (start q ops err)) = Returned err"
proof -
  let ?i = "start q ops err"
  let ?s = "run sched ?i"
  have ws: "will_stop ?s"
    by (rule will_stop_run) (simp add: will_stop_def start_def assms)
  have ok: "returned_ok ?s" using returned_ok_start by (rule returned_ok_run)
  have n: "length (pending ?s) \<le> length (pending ?i)" by (rule pending_run)
  have "length (queue (sq ?s)) + length (pending ?s)
          \<le> length (queue (sq ?i)) + length (pending ?i)" by (rule load_run)
  then have k: "length (queue (sq ?s)) + length (pending ?s)
          < length (queue (sq ?i)) + length (pending ?i) + 1" by simp
  from run_to_return [OF ws ok n k]
  show ?thesis
    by (simp add: complete_schedule_def run_append task_error_run task_error_start)
qed

section \<open>Claims about the queue\<close>

text \<open>
  C1 (as amended). Let the items \<open>xs\<close> put before the single \<open>finish\<close> all differ from
  \<open>None\<close>, as the annotation \<open>item: str\<close> of \<open>put\<close> says, and let the queue be new.
  Under every schedule the consumer has seen an initial part of \<open>xs\<close>, in order and each
  item once; when the drain loop has ended it has seen exactly \<open>xs\<close> and the queue is
  empty; and from every state, once the task has had its turns and the consumer
  \<open>length xs + 2\<close> turns, the stream has ended with exactly \<open>xs\<close> delivered.
\<close>

theorem StreamingQueue_fifo:
  assumes "PNone \<notin> set xs"
  shows "let s = run sched (start StreamingQueue_init (map Put xs @ [Finish]) err);
             s' = run (replicate (length xs + 1) Task @ replicate (length xs + 2) Consumer) s
         in prefix (delivered s) xs \<and>
            (phase s \<noteq> Draining \<longrightarrow> delivered s = xs \<and> queue (sq s) = []) \<and>
            phase s' = Returned err \<and> delivered s' = xs"
proof -
  let ?ops = "map Put xs @ [Finish]"
  let ?s = "run sched (start StreamingQueue_init ?ops err)"
  let ?s' = "run (replicate (length xs + 1) Task @ replicate (length xs + 2) Consumer) ?s"
  have inv0: "stream_inv False ?ops (start StreamingQueue_init ?ops err)"
    unfolding StreamingQueue_init_def by (rule inv_start)
  have inv: "stream_inv False ?ops ?s" using inv0 by (rule inv_run)
  have inv': "stream_inv False ?ops ?s'" using inv by (rule inv_run)
  have ok: "returned_ok ?s" using returned_ok_start by (rule returned_ok_run)
  have a: "prefix (delivered ?s) xs" using inv by (rule delivered_prefix)
  have b: "phase ?s \<noteq> Draining \<longrightarrow> delivered ?s = xs \<and> queue (sq ?s) = []"
    using stopped_all_delivered [OF inv assms] by auto
  have c: "phase ?s' = Returned err"
    using completes [OF inv ok, of "length xs + 1" "length xs + 2"]
    by (simp add: task_error_run task_error_start)
  then have "phase ?s' \<noteq> Draining" by simp
  then have d: "delivered ?s' = xs" using stopped_all_delivered [OF inv' assms] by simp
  show ?thesis unfolding Let_def using a b c d by blast
qed

theorem StreamingQueue_fifo_witness:
  "PNone \<notin> set [PStr ''a'', PStr ''b''] \<and>
   delivered (run (replicate (length [PStr ''a'', PStr ''b''] + 1) Task
                   @ replicate (length [PStr ''a'', PStr ''b''] + 2) Consumer)
               (run [Task, Consumer, Task]
                 (start StreamingQueue_init (map Put [PStr ''a'', PStr ''b''] @ [Finish]) None)))
     = [PStr ''a'', PStr ''b'']"
proof -
  have h: "PNone \<notin> set [PStr ''a'', PStr ''b'']" by simp
  show ?thesis
    using h StreamingQueue_fifo [OF h, of "[Task, Consumer, Task]" None]
    by (simp add: Let_def)
qed

text \<open>
  C1 as stated, for every sequence of items, fails: \<open>put(None)\<close>, \<open>put("a")\<close>,
  \<open>finish()\<close>, and then the consumer. The first item taken is \<open>None\<close> with the flag set,
  so the loop ends with nothing delivered, and \<open>"a"\<close> stays in the queue.
\<close>

theorem StreamingQueue_fifo_counterexample:
  "phase (run [Task, Task, Task, Consumer]
            (start StreamingQueue_init [Put PNone, Put (PStr ''a''), Finish] None)) = AwaitingTask \<and>
   delivered (run [Task, Task, Task, Consumer]
            (start StreamingQueue_init [Put PNone, Put (PStr ''a''), Finish] None)) = [] \<and>
   queue (sq (run [Task, Task, Task, Consumer]
            (start StreamingQueue_init [Put PNone, Put (PStr ''a''), Finish] None))) = [PStr ''a'', PNone]"
  by (simp add: run_def start_def StreamingQueue_init_def task_step_def stream_with_task_def
        stream_def put_def finish_def)

text \<open>
  C4. \<open>stream\<close> ends exactly when the item removed is \<open>None\<close> and the flag is set; a
  \<open>None\<close> removed while the flag is unset is yielded; on an empty queue the consumer is
  suspended and the queue unchanged; and on a new queue, under every schedule and for
  every task, the drain loop has ended only if the task has already performed
  \<open>finish\<close>.
\<close>

theorem stream_stops_only_after_finish:
  "(fst (stream q) = Break \<longleftrightarrow> (\<exists>rest. queue q = PNone # rest) \<and> finished q) \<and>
   (queue q = PNone # rest \<and> \<not> finished q \<longrightarrow> stream q = (Yield PNone, q\<lparr>queue := rest\<rparr>)) \<and>
   (queue q = [] \<longrightarrow> stream q = (Suspended, q)) \<and>
   (phase (run sched (start StreamingQueue_init ops err)) \<noteq> Draining \<longrightarrow>
      (\<exists>done. ops = done @ pending (run sched (start StreamingQueue_init ops err)) \<and>
              Finish \<in> set done))"
proof -
  let ?s = "run sched (start StreamingQueue_init ops err)"
  have a: "fst (stream q) = Break \<longleftrightarrow> (\<exists>rest. queue q = PNone # rest) \<and> finished q"
    by (cases "queue q") (auto simp: stream_def)
  have b: "queue q = PNone # rest \<and> \<not> finished q \<longrightarrow> stream q = (Yield PNone, q\<lparr>queue := rest\<rparr>)"
    by (simp add: stream_def)
  have c: "queue q = [] \<longrightarrow> stream q = (Suspended, q)"
    by (simp add: stream_def)
  have inv0: "stream_inv False ops (start StreamingQueue_init ops err)"
    unfolding StreamingQueue_init_def by (rule inv_start)
  have inv: "stream_inv False ops ?s" using inv0 by (rule inv_run)
  have d: "phase ?s \<noteq> Draining \<longrightarrow> (\<exists>done. ops = done @ pending ?s \<and> Finish \<in> set done)"
  proof
    assume ph: "phase ?s \<noteq> Draining"
    from inv obtain d0 st d2 where h:
      "ops = d0 @ st @ d2 @ pending ?s"
      "finished (sq ?s) = (False \<or> Finish \<in> set (d0 @ st @ d2))"
      "if phase ?s = Draining then st = []
         else finished (sq ?s) \<and> (\<exists>x. st = [x] \<and> item_of x = PNone)"
      unfolding stream_inv_def by blast
    have "Finish \<in> set (d0 @ st @ d2)" using h(2,3) ph by simp
    moreover have "ops = (d0 @ st @ d2) @ pending ?s" using h(1) by simp
    ultimately show "\<exists>done. ops = done @ pending ?s \<and> Finish \<in> set done" by blast
  qed
  show ?thesis using a b c d by blast
qed

theorem stream_stops_only_after_finish_witness:
  "stream \<lparr>finished = False, queue = [PNone, PStr ''a'']\<rparr>
     = (Yield PNone, \<lparr>finished = False, queue = [PStr ''a'']\<rparr>) \<and>
   stream \<lparr>finished = False, queue = []\<rparr> = (Suspended, \<lparr>finished = False, queue = []\<rparr>) \<and>
   phase (run [Consumer, Task, Consumer, Task, Consumer]
            (start StreamingQueue_init [Put PNone, Finish] None)) \<noteq> Draining \<and>
   (\<exists>done. [Put PNone, Finish]
        = done @ pending (run [Consumer, Task, Consumer, Task, Consumer]
                            (start StreamingQueue_init [Put PNone, Finish] None)) \<and>
      Finish \<in> set done)"
proof -
  have ph: "phase (run [Consumer, Task, Consumer, Task, Consumer]
            (start StreamingQueue_init [Put PNone, Finish] None)) \<noteq> Draining"
    by (simp add: run_def start_def StreamingQueue_init_def task_step_def stream_with_task_def
        stream_def put_def finish_def)
  show ?thesis
    using ph
      stream_stops_only_after_finish [of "\<lparr>finished = False, queue = [PNone, PStr ''a'']\<rparr>"
        "[PStr ''a'']" "[Consumer, Task, Consumer, Task, Consumer]" "[Put PNone, Finish]" None]
      stream_stops_only_after_finish [of "\<lparr>finished = False, queue = []\<rparr>"
        "[]" "[]" "[]" None]
    by simp
qed

text \<open>
  C10 (as amended). On a queue made by \<open>__init__\<close> and read by one iteration of
  \<open>stream\<close>, let the task put \<open>xs\<close>, call \<open>finish\<close>, and go on with any operations
  \<open>post\<close>. Under every schedule the consumer has seen an initial part of \<open>xs\<close> only:
  nothing enqueued after \<open>finish\<close> is delivered to it. If no item of \<open>xs\<close> is \<open>None\<close> and
  the drain loop has ended, all of \<open>xs\<close> was delivered and what has been enqueued of
  \<open>post\<close> is still in the queue.
\<close>

theorem put_after_finish_undelivered:
  "prefix (delivered (run sched (start StreamingQueue_init (map Put xs @ Finish # post) err))) xs \<and>
   (PNone \<notin> set xs \<and>
    phase (run sched (start StreamingQueue_init (map Put xs @ Finish # post) err)) \<noteq> Draining \<longrightarrow>
      delivered (run sched (start StreamingQueue_init (map Put xs @ Finish # post) err)) = xs \<and>
      (\<exists>d. post = d @ pending (run sched (start StreamingQueue_init (map Put xs @ Finish # post) err)) \<and>
           queue (sq (run sched (start StreamingQueue_init (map Put xs @ Finish # post) err)))
             = map item_of d))"
proof -
  let ?ops = "map Put xs @ Finish # post"
  let ?s = "run sched (start StreamingQueue_init ?ops err)"
  have inv0: "stream_inv False ?ops (start StreamingQueue_init ?ops err)"
    unfolding StreamingQueue_init_def by (rule inv_start)
  have inv: "stream_inv False ?ops ?s" using inv0 by (rule inv_run)
  have a: "prefix (delivered ?s) xs" using inv by (rule delivered_prefix)
  have b: "PNone \<notin> set xs \<and> phase ?s \<noteq> Draining \<longrightarrow>
      delivered ?s = xs \<and> (\<exists>d. post = d @ pending ?s \<and> queue (sq ?s) = map item_of d)"
    using stopped_all_delivered [OF inv] by blast
  show ?thesis using a b by blast
qed

theorem put_after_finish_undelivered_witness:
  "delivered (run [Task, Task, Task, Task, Consumer, Consumer, Consumer, Consumer, Consumer]
     (start StreamingQueue_init (map Put [PStr ''a''] @ Finish # [Put (PStr ''late''), Finish]) None))
     = [PStr ''a''] \<and>
   queue (sq (run [Task, Task, Task, Task, Consumer, Consumer, Consumer, Consumer, Consumer]
     (start StreamingQueue_init (map Put [PStr ''a''] @ Finish # [Put (PStr ''late''), Finish]) None)))
     = [PStr ''late'', PNone]"
proof -
  have ph: "PNone \<notin> set [PStr ''a''] \<and>
     phase (run [Task, Task, Task, Task, Consumer, Consumer, Consumer, Consumer, Consumer]
     (start StreamingQueue_init (map Put [PStr ''a''] @ Finish # [Put (PStr ''late''), Finish]) None))
      \<noteq> Draining"
    by (simp add: run_def start_def StreamingQueue_init_def task_step_def stream_with_task_def
        stream_def put_def finish_def)
  have pe: "pending (run [Task, Task, Task, Task, Consumer, Consumer, Consumer, Consumer, Consumer]
     (start StreamingQueue_init (map Put [PStr ''a''] @ Finish # [Put (PStr ''late''), Finish]) None))
      = []"
    by (simp add: run_def start_def StreamingQueue_init_def task_step_def stream_with_task_def
        stream_def put_def finish_def)
  show ?thesis
    using ph pe put_after_finish_undelivered [of
        "[Task, Task, Task, Task, Consumer, Consumer, Consumer, Consumer, Consumer]"
        "[PStr ''a'']" "[Put (PStr ''late''), Finish]" None]
    by auto
qed

text \<open>
  C10 as stated, for every put made after \<open>finish\<close> has been called, fails on a queue
  that is read again, as the module-level queue is by the next request. A first
  iteration of \<open>stream\<close> drains \<open>put("a")\<close>, \<open>finish()\<close> and leaves the queue empty with the
  flag set; \<open>put("late")\<close> then comes after that \<open>finish\<close>, and the next iteration of
  \<open>stream\<close> delivers it.
\<close>

theorem put_after_finish_counterexample:
  "sq (run [Task, Task, Consumer, Consumer]
         (start StreamingQueue_init [Put (PStr ''a''), Finish] None))
     = \<lparr>finished = True, queue = []\<rparr> \<and>
   delivered (run [Task, Consumer]
     (start (sq (run [Task, Task, Consumer, Consumer]
                   (start StreamingQueue_init [Put (PStr ''a''), Finish] None)))
        [Put (PStr ''late''), Finish] None))
     = [PStr ''late'']"
  by (simp add: run_def start_def StreamingQueue_init_def task_step_def stream_with_task_def
        stream_def put_def finish_def)

text \<open>
  C8. \<open>stream_with_task\<close> has returned only if the task has performed all its
  operations, and it returns with the exception the task ended with; it leaves the
  drain loop only when \<open>stream\<close> ends, and then awaits the task; while it awaits a
  task that is not complete it stays where it is.
\<close>

theorem invocation_returns_after_task:
  "(phase (run sched (start q ops err)) = Returned e \<longrightarrow>
      pending (run sched (start q ops err)) = [] \<and> e = err) \<and>
   (phase s = Draining \<and> phase (stream_with_task s) \<noteq> Draining \<longrightarrow>
      fst (stream (sq s)) = Break \<and> phase (stream_with_task s) = AwaitingTask) \<and>
   (phase w = AwaitingTask \<and> pending w \<noteq> [] \<longrightarrow> stream_with_task w = w)"
proof -
  let ?s = "run sched (start q ops err)"
  have "returned_ok ?s" using returned_ok_start by (rule returned_ok_run)
  then have a: "phase ?s = Returned e \<longrightarrow> pending ?s = [] \<and> e = err"
    by (simp add: returned_ok_def task_error_run task_error_start)
  have b: "phase s = Draining \<and> phase (stream_with_task s) \<noteq> Draining \<longrightarrow>
      fst (stream (sq s)) = Break \<and> phase (stream_with_task s) = AwaitingTask"
    by (auto simp: stream_with_task_def split: prod.splits stream_event.splits)
  have c: "phase w = AwaitingTask \<and> pending w \<noteq> [] \<longrightarrow> stream_with_task w = w"
    by (simp add: stream_with_task_def)
  show ?thesis using a b c by blast
qed

theorem invocation_returns_after_task_witness:
  "phase (run [Task, Task, Consumer, Consumer, Consumer]
            (start StreamingQueue_init [Put (PStr ''a''), Finish] (Some ''boom'')))
     = Returned (Some ''boom'') \<and>
   pending (run [Task, Task, Consumer, Consumer, Consumer]
            (start StreamingQueue_init [Put (PStr ''a''), Finish] (Some ''boom''))) = [] \<and>
   fst (stream (sq (run [Task, Task, Consumer]
            (start StreamingQueue_init [Put (PStr ''a''), Finish] (Some ''boom''))))) = Break \<and>
   stream_with_task (run [Task, Consumer, Task]
            (start \<lparr>finished = True, queue = []\<rparr> [Put PNone, Put (PStr ''a''), Finish] None))
     = run [Task, Consumer, Task]
            (start \<lparr>finished = True, queue = []\<rparr> [Put PNone, Put (PStr ''a''), Finish] None)"
proof -
  let ?r = "run [Task, Task, Consumer, Consumer, Consumer]
            (start StreamingQueue_init [Put (PStr ''a''), Finish] (Some ''boom''))"
  let ?s = "run [Task, Task, Consumer]
            (start StreamingQueue_init [Put (PStr ''a''), Finish] (Some ''boom''))"
  let ?w = "run [Task, Consumer, Task]
            (start \<lparr>finished = True, queue = []\<rparr> [Put PNone, Put (PStr ''a''), Finish] None)"
  have r: "phase ?r = Returned (Some ''boom'')"
    by (simp add: run_def start_def StreamingQueue_init_def task_step_def stream_with_task_def
        stream_def put_def finish_def)
  have s: "phase ?s = Draining \<and> phase (stream_with_task ?s) \<noteq> Draining"
    by (simp add: run_def start_def StreamingQueue_init_def task_step_def stream_with_task_def
        stream_def put_def finish_def)
  have w: "phase ?w = AwaitingTask \<and> pending ?w \<noteq> []"
    by (simp add: run_def start_def task_step_def stream_with_task_def
        stream_def put_def finish_def)
  show ?thesis
    using r s w
      invocation_returns_after_task [of "[Task, Task, Consumer, Consumer, Consumer]"
        StreamingQueue_init "[Put (PStr ''a''), Finish]" "Some ''boom''" "Some ''boom''" ?s ?w]
    by blast
qed


section \<open>Claims about the tools and the keyword check\<close>

lemma str_in_iff: "str_in needle hay \<longleftrightarrow> (\<exists>pre post. hay = pre @ needle @ post)"
proof (induction hay)
  case Nil
  then show ?case by simp
next
  case (Cons c cs)
  show ?case
  proof
    assume "str_in needle (c # cs)"
    then consider "prefix needle (c # cs)" | "str_in needle cs" by auto
    then show "\<exists>pre post. c # cs = pre @ needle @ post"
    proof cases
      case 1
      then obtain post where "c # cs = needle @ post" by (auto simp: prefix_def)
      then have "c # cs = [] @ needle @ post" by simp
      then show ?thesis by blast
    next
      case 2
      then obtain pre post where "cs = pre @ needle @ post" using Cons.IH by blast
      then have "c # cs = (c # pre) @ needle @ post" by simp
      then show ?thesis by blast
    qed
  next
    assume "\<exists>pre post. c # cs = pre @ needle @ post"
    then obtain pre post where h: "c # cs = pre @ needle @ post" by blast
    show "str_in needle (c # cs)"
    proof (cases pre)
      case Nil
      then have "prefix needle (c # cs)" using h by (simp add: prefix_def)
      then show ?thesis by simp
    next
      case (Cons p pre')
      then have "cs = pre' @ needle @ post" using h by simp
      then have "str_in needle cs" using Cons.IH by blast
      then show ?thesis by simp
    qed
  qed
qed

lemma lower_append: "lower (a @ b) = lower a @ lower b"
  by (simp add: lower_def)

lemma lower_occurs:
  "(\<exists>pre post. lower t = pre @ k @ post) \<longleftrightarrow>
   (\<exists>pre mid post. t = pre @ mid @ post \<and> lower mid = k)"
proof
  assume "\<exists>pre post. lower t = pre @ k @ post"
  then obtain pre post where "map lower_char t = pre @ k @ post" by (auto simp: lower_def)
  then obtain a r where a: "t = a @ r" "pre = map lower_char a" "k @ post = map lower_char r"
    by (metis map_eq_append_conv)
  from a(3) obtain b c where "r = b @ c" "k = map lower_char b" "post = map lower_char c"
    by (metis map_eq_append_conv)
  then have "t = a @ b @ c \<and> lower b = k" using a by (simp add: lower_def)
  then show "\<exists>pre mid post. t = pre @ mid @ post \<and> lower mid = k" by blast
next
  assume "\<exists>pre mid post. t = pre @ mid @ post \<and> lower mid = k"
  then obtain pre mid post where "t = pre @ mid @ post" "lower mid = k" by blast
  then have "lower t = lower pre @ k @ lower post" by (simp add: lower_append)
  then show "\<exists>pre post. lower t = pre @ k @ post" by blast
qed

text \<open>
  C7. \<open>needs_authentication\<close> holds exactly when the response text contains a
  segment that equals one of the configured keywords once both are put in lower case;
  and two texts that agree in lower case get the same answer.
\<close>

theorem needs_authentication_case_insensitive:
  "(needs_authentication response_text \<longleftrightarrow>
      (\<exists>keyword \<in> set auth_keywords. \<exists>pre mid post.
          response_text = pre @ mid @ post \<and> lower mid = lower keyword)) \<and>
   (lower other = lower response_text \<longrightarrow>
      needs_authentication other = needs_authentication response_text)"
proof -
  have "needs_authentication response_text \<longleftrightarrow>
      (\<exists>keyword \<in> set auth_keywords. \<exists>pre post. lower response_text = pre @ lower keyword @ post)"
    by (simp add: needs_authentication_def list_ex_iff str_in_iff)
  then have a: "needs_authentication response_text \<longleftrightarrow>
      (\<exists>keyword \<in> set auth_keywords. \<exists>pre mid post.
          response_text = pre @ mid @ post \<and> lower mid = lower keyword)"
    by (simp add: lower_occurs)
  have b: "lower other = lower response_text \<longrightarrow>
      needs_authentication other = needs_authentication response_text"
    by (simp add: needs_authentication_def)
  show ?thesis using a b by blast
qed

theorem needs_authentication_case_insensitive_witness:
  "needs_authentication ''Please LOGIN first'' \<and>
   (\<exists>keyword \<in> set auth_keywords. \<exists>pre mid post.
      ''Please LOGIN first'' = pre @ mid @ post \<and> lower mid = lower keyword) \<and>
   needs_authentication ''please login first''"
proof -
  have l: "lower ''please login first'' = lower ''Please LOGIN first''"
    by (simp add: lower_def lower_char_def)
  have n: "needs_authentication ''Please LOGIN first''"
    by (simp add: needs_authentication_def auth_keywords_def lower_def lower_char_def)
  show ?thesis
    using l n needs_authentication_case_insensitive
                [of "''Please LOGIN first''" "''please login first''"]
    by blast
qed

text \<open>
  C5. With the token slot \<open>None\<close> or empty, each tool returns its \<open>auth_required\<close>
  JSON object, spelled out below, and sends nothing to the provider.
\<close>

theorem tool_without_token:
  \<open>token = None \<or> token = Some [] \<longrightarrow>
     get_calendar_events_today calendar token = (json_dumps auth_required_google, []) \<and>
     inspect_github_repos github token = (json_dumps auth_required_github, []) \<and>
     json_dumps auth_required_google =
       ''{"auth_required": true, "message": "Google Calendar authentication is required. Please wait while we set up the authorization.", "events": []}'' \<and>
     json_dumps auth_required_github =
       ''{"auth_required": true, "message": "GitHub authentication is required. Please wait while we set up the authorization.", "events": []}''\<close>
proof -
  have g: \<open>json_dumps auth_required_google =
       ''{"auth_required": true, "message": "Google Calendar authentication is required. Please wait while we set up the authorization.", "events": []}''\<close>
    by (simp add: auth_required_google_def json_string_def json_escape_char_def)
  have h: \<open>json_dumps auth_required_github =
       ''{"auth_required": true, "message": "GitHub authentication is required. Please wait while we set up the authorization.", "events": []}''\<close>
    by (simp add: auth_required_github_def json_string_def json_escape_char_def)
  show ?thesis
    using g h by (auto simp: get_calendar_events_today_def inspect_github_repos_def)
qed

theorem tool_without_token_witness:
  "get_calendar_events_today
     \<lparr>today = ''2025-06-01'', build_service = Returns (), events_list = Returns []\<rparr> None
     = (json_dumps auth_required_google, []) \<and>
   inspect_github_repos
     \<lparr>get_user = HttpOk (Some ''octocat''), search_repositories = (\<lambda>u. HttpOk [])\<rparr> (Some [])
     = (json_dumps auth_required_github, [])"
  using tool_without_token [of None
          "\<lparr>today = ''2025-06-01'', build_service = Returns (), events_list = Returns []\<rparr>"
          "\<lparr>get_user = HttpOk (Some ''octocat''), search_repositories = (\<lambda>u. HttpOk [])\<rparr>"]
        tool_without_token [of "Some []"
          "\<lparr>today = ''2025-06-01'', build_service = Returns (), events_list = Returns []\<rparr>"
          "\<lparr>get_user = HttpOk (Some ''octocat''), search_repositories = (\<lambda>u. HttpOk [])\<rparr>"]
  by blast


section \<open>Properties of the background task\<close>

lemma fold_on_auth_url_google:
  "fold on_auth_url_google urls s =
     s\<lparr>emitted := emitted s @ map (\<lambda>url. Put (PStr (''Authorization url: '' @ url))) urls\<rparr>"
  by (induction urls arbitrary: s) (simp_all add: on_auth_url_google_def queue_put_def)

lemma fold_on_auth_url_github:
  "fold on_auth_url_github urls s =
     s\<lparr>emitted := emitted s @ map (\<lambda>url. Put (PStr (''Authorization URL: '' @ url))) urls\<rparr>"
  by (induction urls arbitrary: s) (simp_all add: on_auth_url_github_def queue_put_def)

lemmas task_defs =
  agent_task_google_def agent_task_body_google_def
  agent_task_github_def agent_task_body_github_def
  handle_and_finish_def call_agent_def requires_access_token_def need_token_3lo_async_def
  put_result_def queue_put_def queue_finish_def initial_task_def Let_def
  fold_on_auth_url_google fold_on_auth_url_github

lemma all_puts: "Finish \<notin> set ops \<Longrightarrow> \<exists>xs. ops = map Put xs"
proof (induction ops)
  case Nil then show ?case by simp
next
  case (Cons x ops)
  then obtain xs where xs: "ops = map Put xs" by auto
  from Cons.prems obtain v where "x = Put v" by (cases x) auto
  then have "x # ops = map Put (v # xs)" using xs by simp
  then show ?case by (rule exI)
qed

lemma shape_from_last:
  assumes "ops \<noteq> []" "last ops = Finish" "Finish \<notin> set (butlast ops)"
  shows "\<exists>xs. ops = map Put xs @ [Finish]"
proof -
  obtain xs where "butlast ops = map Put xs" using all_puts [OF assms(3)] by blast
  moreover have "ops = butlast ops @ [last ops]" using assms(1) by simp
  ultimately show ?thesis using assms(2) by metis
qed

lemma agent_task_google_last:
  "emitted (agent_task_google env m (initial_task tok)) \<noteq> [] \<and>
   last (emitted (agent_task_google env m (initial_task tok))) = Finish \<and>
   Finish \<notin> set (butlast (emitted (agent_task_google env m (initial_task tok))))"
  by (auto simp: task_defs butlast_append split: outcome.splits prod.splits)

lemma agent_task_github_last:
  "emitted (agent_task_github env m (initial_task tok)) \<noteq> [] \<and>
   last (emitted (agent_task_github env m (initial_task tok))) = Finish \<and>
   Finish \<notin> set (butlast (emitted (agent_task_github env m (initial_task tok))))"
  by (auto simp: task_defs butlast_append split: outcome.splits prod.splits)

lemma agent_task_google_shape:
  "\<exists>xs. emitted (agent_task_google env m (initial_task tok)) = map Put xs @ [Finish]"
  using agent_task_google_last [of env m tok] by (blast intro: shape_from_last)

lemma agent_task_github_shape:
  "\<exists>xs. emitted (agent_task_github env m (initial_task tok)) = map Put xs @ [Finish]"
  using agent_task_github_last [of env m tok] by (blast intro: shape_from_last)

lemma agent_task_google_no_None:
  "\<forall>n. agent env m n \<noteq> Returns PNone \<Longrightarrow>
   Put PNone \<notin> set (emitted (agent_task_google env m (initial_task tok)))"
  by (auto simp: task_defs split: outcome.splits prod.splits)

lemma agent_task_github_no_None:
  "\<forall>n. agent env m n \<noteq> Returns PNone \<Longrightarrow>
   Put PNone \<notin> set (emitted (agent_task_github env m (initial_task tok)))"
  by (auto simp: task_defs split: outcome.splits prod.splits)

lemma agent_task_counts:
  "auth_calls (agent_task_google env m (initial_task tok)) \<le> 1 \<and>
   agent_calls (agent_task_google env m (initial_task tok)) \<le> 2 \<and>
   auth_calls (agent_task_github env m (initial_task tok)) \<le> 1 \<and>
   agent_calls (agent_task_github env m (initial_task tok)) \<le> 2"
  by (auto simp: task_defs split: outcome.splits prod.splits)



lemmas eval_defs =
  task_defs response_text_google_def extract_response_text_def text_values_def
  List.map_filter_def needs_authentication_def auth_keywords_def lower_def lower_char_def
  type_name_def on_auth_url_google_def on_auth_url_github_def

lemma inv_start_empty:
  assumes "queue q = []"
  shows "stream_inv (finished q) ops (start q ops err)"
proof -
  have "q = \<lparr>finished = finished q, queue = []\<rparr>" using assms by simp
  then show ?thesis using inv_start [of "finished q" ops err] by simp
qed

lemma request_on_empty_queue:
  assumes q: "queue q = []" and ops: "ops = map Put xs @ [Finish]" and xs: "PNone \<notin> set xs"
  shows "phase (run (sched @ complete_schedule (start q ops err)) (start q ops err)) = Returned err \<and>
         delivered (run (sched @ complete_schedule (start q ops err)) (start q ops err)) = xs \<and>
         sq (run (sched @ complete_schedule (start q ops err)) (start q ops err))
           = \<lparr>finished = True, queue = []\<rparr>"
proof -
  let ?s = "run (sched @ complete_schedule (start q ops err)) (start q ops err)"
  have "Finish \<in> set ops" using ops by simp
  then have ph: "phase ?s = Returned err" by (rule complete_from_reachable)
  have "stream_inv (finished q) ops ?s"
    using inv_start_empty [OF q] by (rule inv_run)
  then have inv: "stream_inv (finished q) (map Put xs @ Finish # []) ?s" using ops by simp
  have "phase ?s \<noteq> Draining" using ph by simp
  from stopped_all_delivered [OF inv xs this]
  have "delivered ?s = xs" "finished (sq ?s)" "queue (sq ?s) = []" by auto
  then show ?thesis using ph by simp
qed

lemma no_None_items:
  assumes "ops = map Put xs @ [Finish]" "Put PNone \<notin> set ops"
  shows "PNone \<notin> set xs"
  using assms by auto


section \<open>Claims about the background task and the requests\<close>

text \<open>
  C3. In both scripts the task calls the OAuth helper at most once. If the first agent
  call returns a response whose text asks for authorization and the exchange raises
  \<open>e\<close>, the task puts \<open>Authentication failed: e\<close>, ends with \<open>finish\<close>, and has
  called the helper once and the agent once: there is no second exchange and no retry of
  the agent call.
\<close>

theorem authorization_attempted_once:
  "auth_calls (agent_task_google env m (initial_task tok)) \<le> 1 \<and>
   auth_calls (agent_task_github env m (initial_task tok)) \<le> 1 \<and>
   (agent env m 0 = Returns message \<and>
    response_text_google (str_of env) message = Returns response_text \<and>
    needs_authentication response_text \<and> auth_token env = Raises e \<longrightarrow>
      Put (PStr (''Authentication failed: '' @ e))
        \<in> set (emitted (agent_task_google env m (initial_task tok))) \<and>
      last (emitted (agent_task_google env m (initial_task tok))) = Finish \<and>
      auth_calls (agent_task_google env m (initial_task tok)) = 1 \<and>
      agent_calls (agent_task_google env m (initial_task tok)) = 1) \<and>
   (agent env m 0 = Returns message \<and>
    extract_response_text (str_of env) message = Returns response_text \<and>
    needs_authentication response_text \<and> auth_token env = Raises e \<longrightarrow>
      Put (PStr (''Authentication failed: '' @ e))
        \<in> set (emitted (agent_task_github env m (initial_task tok))) \<and>
      last (emitted (agent_task_github env m (initial_task tok))) = Finish \<and>
      auth_calls (agent_task_github env m (initial_task tok)) = 1 \<and>
      agent_calls (agent_task_github env m (initial_task tok)) = 1)"
proof -
  have a: "auth_calls (agent_task_google env m (initial_task tok)) \<le> 1"
    and b: "auth_calls (agent_task_github env m (initial_task tok)) \<le> 1"
    using agent_task_counts [of env m tok] by simp_all
  have c: "agent env m 0 = Returns message \<and>
    response_text_google (str_of env) message = Returns response_text \<and>
    needs_authentication response_text \<and> auth_token env = Raises e \<longrightarrow>
      Put (PStr (''Authentication failed: '' @ e))
        \<in> set (emitted (agent_task_google env m (initial_task tok))) \<and>
      last (emitted (agent_task_google env m (initial_task tok))) = Finish \<and>
      auth_calls (agent_task_google env m (initial_task tok)) = 1 \<and>
      agent_calls (agent_task_google env m (initial_task tok)) = 1"
    by (simp add: task_defs)
  have d: "agent env m 0 = Returns message \<and>
    extract_response_text (str_of env) message = Returns response_text \<and>
    needs_authentication response_text \<and> auth_token env = Raises e \<longrightarrow>
      Put (PStr (''Authentication failed: '' @ e))
        \<in> set (emitted (agent_task_github env m (initial_task tok))) \<and>
      last (emitted (agent_task_github env m (initial_task tok))) = Finish \<and>
      auth_calls (agent_task_github env m (initial_task tok)) = 1 \<and>
      agent_calls (agent_task_github env m (initial_task tok)) = 1"
    by (simp add: task_defs)
  show ?thesis using a b c d by blast
qed

theorem authorization_attempted_once_witness:
  "Put (PStr ''Authentication failed: consent refused'')
     \<in> set (emitted (agent_task_google
          \<lparr>agent = (\<lambda>u n. Returns (PDict [(''content'', PList [PDict [(''text'', PStr ''Login needed'')]])])),
           str_of = (\<lambda>v. []), auth_urls = [], auth_token = Raises ''consent refused''\<rparr>
          (PStr ''events'') (initial_task None))) \<and>
   agent_calls (agent_task_github
          \<lparr>agent = (\<lambda>u n. Returns (PDict [(''content'', PList [PDict [(''text'', PStr ''Login needed'')]])])),
           str_of = (\<lambda>v. []), auth_urls = [], auth_token = Raises ''consent refused''\<rparr>
          (PStr ''events'') (initial_task None)) = 1"
proof -
  let ?msg = "PDict [(''content'', PList [PDict [(''text'', PStr ''Login needed'')]])]"
  let ?env = "\<lparr>agent = (\<lambda>u n. Returns ?msg),
           str_of = (\<lambda>v. []), auth_urls = [], auth_token = Raises ''consent refused''\<rparr>"
  have g: "agent ?env (PStr ''events'') 0 = Returns ?msg \<and>
    response_text_google (str_of ?env) ?msg = Returns ''Login needed'' \<and>
    needs_authentication ''Login needed'' \<and> auth_token ?env = Raises ''consent refused''"
    by (simp add: eval_defs)
  have h: "agent ?env (PStr ''events'') 0 = Returns ?msg \<and>
    extract_response_text (str_of ?env) ?msg = Returns ''Login needed'' \<and>
    needs_authentication ''Login needed'' \<and> auth_token ?env = Raises ''consent refused''"
    by (simp add: eval_defs)
  show ?thesis
    using g h authorization_attempted_once [of ?env "PStr ''events''" None ?msg
                 "''Login needed''" "''consent refused''"]
    by simp
qed



text \<open>
  C9. The two scripts at one input: the first agent call answers \<open>Please sign in\<close>,
  the OAuth helper hands out one authorization URL, and the exchange raises
  \<open>access denied\<close>. The GitHub script returns after \<open>Authentication failed\<close>; the
  Google script has no \<open>return\<close> there and goes on to put the response of the first
  call and \<open>End agent execution\<close>.
\<close>

theorem agent_task_scripts_differ_after_failed_authorization:
  "emitted (agent_task_google
      \<lparr>agent = (\<lambda>u n. Returns (PDict [(''role'', PStr ''assistant''),
                                       (''content'', PList [PDict [(''text'', PStr ''Please sign in'')]])])),
       str_of = (\<lambda>v. []), auth_urls = [''https://idp.example/authorize''],
       auth_token = Raises ''access denied''\<rparr>
      (PStr ''hello'') (initial_task None))
     = [Put (PStr ''Begin agent execution''),
        Put (PStr ''Authentication required for Google Calendar access. Starting authorization flow...''),
        Put (PStr ''Authorization url: https://idp.example/authorize''),
        Put (PStr ''Authentication failed: access denied''),
        Put (PDict [(''role'', PStr ''assistant''),
                    (''content'', PList [PDict [(''text'', PStr ''Please sign in'')]])]),
        Put (PStr ''End agent execution''),
        Finish] \<and>
   emitted (agent_task_github
      \<lparr>agent = (\<lambda>u n. Returns (PDict [(''role'', PStr ''assistant''),
                                       (''content'', PList [PDict [(''text'', PStr ''Please sign in'')]])])),
       str_of = (\<lambda>v. []), auth_urls = [''https://idp.example/authorize''],
       auth_token = Raises ''access denied''\<rparr>
      (PStr ''hello'') (initial_task None))
     = [Put (PStr ''Begin agent execution''),
        Put (PStr ''Authentication required for GitHub access. Starting authorization flow...''),
        Put (PStr ''Authorization URL: https://idp.example/authorize''),
        Put (PStr ''Authentication failed: access denied''),
        Finish]"
  by (simp add: eval_defs)

text \<open>
  C2 (as amended). The queue is one object of the module, made when the script is
  loaded: a request starts on the queue as the requests before it left it. If that
  queue is empty and no agent response is \<open>None\<close>, then a request that runs to its end
  has delivered exactly the items its task put before \<open>finish\<close>, and it leaves the
  queue empty with the flag set; this is the queue the next request starts on.
\<close>

theorem queue_shared_between_requests:
  "queue (module_queue md) = [] \<and>
   (\<forall>n. agent env (prompt_google payload) n \<noteq> Returns PNone) \<and>
   (\<forall>n. agent env (prompt_github payload) n \<noteq> Returns PNone) \<longrightarrow>
     sq (agent_invocation_google env payload md) = module_queue md \<and>
     sq (agent_invocation_github env payload md) = module_queue md \<and>
     phase (run (sched @ complete_schedule (agent_invocation_google env payload md))
              (agent_invocation_google env payload md)) = Returned None \<and>
     map Put (delivered (run (sched @ complete_schedule (agent_invocation_google env payload md))
                           (agent_invocation_google env payload md))) @ [Finish]
       = pending (agent_invocation_google env payload md) \<and>
     module_queue (after_request_google env payload
                     (sched @ complete_schedule (agent_invocation_google env payload md)) md)
       = \<lparr>finished = True, queue = []\<rparr> \<and>
     phase (run (sched @ complete_schedule (agent_invocation_github env payload md))
              (agent_invocation_github env payload md)) = Returned None \<and>
     map Put (delivered (run (sched @ complete_schedule (agent_invocation_github env payload md))
                           (agent_invocation_github env payload md))) @ [Finish]
       = pending (agent_invocation_github env payload md) \<and>
     module_queue (after_request_github env payload
                     (sched @ complete_schedule (agent_invocation_github env payload md)) md)
       = \<lparr>finished = True, queue = []\<rparr>"
proof
  assume h: "queue (module_queue md) = [] \<and>
   (\<forall>n. agent env (prompt_google payload) n \<noteq> Returns PNone) \<and>
   (\<forall>n. agent env (prompt_github payload) n \<noteq> Returns PNone)"
  let ?tg = "agent_task_google env (prompt_google payload) (initial_task (module_access_token md))"
  let ?th = "agent_task_github env (prompt_github payload) (initial_task (module_access_token md))"
  obtain xs where xs: "emitted ?tg = map Put xs @ [Finish]"
    using agent_task_google_shape by blast
  have "Put PNone \<notin> set (emitted ?tg)" using h by (simp add: agent_task_google_no_None)
  then have nx: "PNone \<notin> set xs" using xs by (rule no_None_items [rotated])
  obtain ys where ys: "emitted ?th = map Put ys @ [Finish]"
    using agent_task_github_shape by blast
  have "Put PNone \<notin> set (emitted ?th)" using h by (simp add: agent_task_github_no_None)
  then have ny: "PNone \<notin> set ys" using ys by (rule no_None_items [rotated])
  have q: "queue (module_queue md) = []" using h by simp
  note g = request_on_empty_queue [OF q xs nx, of sched None]
  note gh = request_on_empty_queue [OF q ys ny, of sched None]
  have a: "sq (agent_invocation_google env payload md) = module_queue md"
    "sq (agent_invocation_github env payload md) = module_queue md"
    by (simp_all add: agent_invocation_google_def agent_invocation_github_def start_def)
  have pg: "pending (agent_invocation_google env payload md) = emitted ?tg"
    by (simp add: agent_invocation_google_def start_def)
  have ph: "pending (agent_invocation_github env payload md) = emitted ?th"
    by (simp add: agent_invocation_github_def start_def)
  have ig: "start (module_queue md) (emitted ?tg) None
              = agent_invocation_google env payload md"
    by (simp add: agent_invocation_google_def)
  have ih: "start (module_queue md) (emitted ?th) None
              = agent_invocation_github env payload md"
    by (simp add: agent_invocation_github_def)
  note g' = g [unfolded ig]
  note gh' = gh [unfolded ih]
  show "sq (agent_invocation_google env payload md) = module_queue md \<and>
     sq (agent_invocation_github env payload md) = module_queue md \<and>
     phase (run (sched @ complete_schedule (agent_invocation_google env payload md))
              (agent_invocation_google env payload md)) = Returned None \<and>
     map Put (delivered (run (sched @ complete_schedule (agent_invocation_google env payload md))
                           (agent_invocation_google env payload md))) @ [Finish]
       = pending (agent_invocation_google env payload md) \<and>
     module_queue (after_request_google env payload
                     (sched @ complete_schedule (agent_invocation_google env payload md)) md)
       = \<lparr>finished = True, queue = []\<rparr> \<and>
     phase (run (sched @ complete_schedule (agent_invocation_github env payload md))
              (agent_invocation_github env payload md)) = Returned None \<and>
     map Put (delivered (run (sched @ complete_schedule (agent_invocation_github env payload md))
                           (agent_invocation_github env payload md))) @ [Finish]
       = pending (agent_invocation_github env payload md) \<and>
     module_queue (after_request_github env payload
                     (sched @ complete_schedule (agent_invocation_github env payload md)) md)
       = \<lparr>finished = True, queue = []\<rparr>"
    using a g' gh'
    by (simp add: pg ph after_request_google_def after_request_github_def xs ys)
qed

theorem queue_shared_between_requests_witness:
  "module_queue (after_request_google
      \<lparr>agent = (\<lambda>u n. Returns (PDict [(''content'', PList [PDict [(''text'', PStr ''Two meetings'')]])])),
       str_of = (\<lambda>v. []), auth_urls = [], auth_token = Raises []\<rparr>
      [(''prompt'', PStr ''events'')]
      ([Consumer] @ complete_schedule (agent_invocation_google
          \<lparr>agent = (\<lambda>u n. Returns (PDict [(''content'', PList [PDict [(''text'', PStr ''Two meetings'')]])])),
           str_of = (\<lambda>v. []), auth_urls = [], auth_token = Raises []\<rparr>
          [(''prompt'', PStr ''events'')] module_init))
      module_init)
     = \<lparr>finished = True, queue = []\<rparr> \<and>
   module_queue (after_request_github
      \<lparr>agent = (\<lambda>u n. Returns (PDict [(''content'', PList [PDict [(''text'', PStr ''Two meetings'')]])])),
       str_of = (\<lambda>v. []), auth_urls = [], auth_token = Raises []\<rparr>
      [(''prompt'', PStr ''events'')]
      ([Consumer] @ complete_schedule (agent_invocation_github
          \<lparr>agent = (\<lambda>u n. Returns (PDict [(''content'', PList [PDict [(''text'', PStr ''Two meetings'')]])])),
           str_of = (\<lambda>v. []), auth_urls = [], auth_token = Raises []\<rparr>
          [(''prompt'', PStr ''events'')] module_init))
      module_init)
     = \<lparr>finished = True, queue = []\<rparr>"
proof -
  let ?env = "\<lparr>agent = (\<lambda>u n. Returns (PDict [(''content'', PList [PDict [(''text'', PStr ''Two meetings'')]])])),
       str_of = (\<lambda>v. []), auth_urls = [], auth_token = Raises []\<rparr>"
  have h: "queue (module_queue module_init) = [] \<and>
     (\<forall>n. agent ?env (prompt_google [(''prompt'', PStr ''events'')]) n \<noteq> Returns PNone) \<and>
     (\<forall>n. agent ?env (prompt_github [(''prompt'', PStr ''events'')]) n \<noteq> Returns PNone)"
    by (simp add: module_init_def StreamingQueue_init_def)
  show ?thesis
    using h queue_shared_between_requests [of module_init ?env "[(''prompt'', PStr ''events'')]" "[Consumer]"]
    by simp
qed

text \<open>
  C2 as stated fails: after a first request has been served from the freshly loaded
  module, the second request starts on a queue whose flag is already set, not on a new
  queue.
\<close>

theorem queue_created_per_request_counterexample:
  "phase (run [Task, Task, Task, Task, Consumer, Consumer, Consumer, Consumer, Consumer]
      (agent_invocation_google
         \<lparr>agent = (\<lambda>u n. Returns (PDict [(''content'', PList [PDict [(''text'', PStr ''Two meetings'')]])])),
          str_of = (\<lambda>v. []), auth_urls = [], auth_token = Raises []\<rparr>
         [(''prompt'', PStr ''events'')] module_init)) = Returned None \<and>
   sq (agent_invocation_google
         \<lparr>agent = (\<lambda>u n. Returns (PDict [(''content'', PList [PDict [(''text'', PStr ''Two meetings'')]])])),
          str_of = (\<lambda>v. []), auth_urls = [], auth_token = Raises []\<rparr>
         [(''prompt'', PStr ''events'')]
         (after_request_google
            \<lparr>agent = (\<lambda>u n. Returns (PDict [(''content'', PList [PDict [(''text'', PStr ''Two meetings'')]])])),
             str_of = (\<lambda>v. []), auth_urls = [], auth_token = Raises []\<rparr>
            [(''prompt'', PStr ''events'')]
            [Task, Task, Task, Task, Consumer, Consumer, Consumer, Consumer, Consumer]
            module_init))
     = \<lparr>finished = True, queue = []\<rparr> \<and>
   StreamingQueue_init \<noteq> \<lparr>finished = True, queue = []\<rparr>"
  by (simp add: eval_defs agent_invocation_google_def after_request_google_def prompt_google_def
        module_init_def run_def start_def StreamingQueue_init_def task_step_def
        stream_with_task_def stream_def put_def finish_def)


end
